theory Spec2Isabelle
  imports Complex_Main "HOL-Library.Monad_Syntax"
begin

section \<open>Numbers\<close>

text \<open>
  The statistics module computes on TypeScript \<open>number\<close>s, which are IEEE 754 binary64
  values. Two readings of the code are kept apart.

  The first reads each arithmetic operation as the exact operation on the reals. It keeps
  where a computation leaves the finite numbers: a division by zero, a logarithm of a
  number that is not positive, a square root of a negative number. In JavaScript these
  yield \<open>NaN\<close> or an infinity and never throw; here the operation returns \<open>None\<close>, and
  \<open>None\<close> is passed on. This reading is used for the formulas that the calculators
  implement and for the procedures on lists.

  The second reading, further down, rounds the result of every operation to binary64 and
  is used where the value that the code returns on doubles matters: monotonicity,
  finiteness, and the test \<open>std === 0\<close>.
\<close>

definition js_div :: "real \<Rightarrow> real \<Rightarrow> real option" where
  "js_div x y = (if y = 0 then None else Some (x / y))"

definition js_sqrt :: "real \<Rightarrow> real option" where
  "js_sqrt x = (if x < 0 then None else Some (sqrt x))"

definition js_log :: "real \<Rightarrow> real option" where
  "js_log x = (if x \<le> 0 then None else Some (ln x))"

definition js_log2 :: "real \<Rightarrow> real option" where
  "js_log2 x = (if x \<le> 0 then None else Some (log 2 x))"

section \<open>IEEE 754 binary64\<close>

text \<open>
  A finite double is the real number it denotes (the two zeros are identified: the code
  never tells them apart). \<open>rne\<close> rounds a real to the nearest integer, ties to the even
  one. \<open>round64\<close> rounds a real to the nearest multiple of the unit in the last place of
  its binade, with 53 significant bits and the least exponent \<open>-1022\<close>, so that numbers
  below \<open>2 ^ -1022\<close> are rounded to multiples of \<open>2 ^ -1074\<close> (gradual underflow).
  \<open>f64\<close> is the result of an operation whose exact value is \<open>x\<close>: the rounded value, or
  \<open>None\<close> when the rounded magnitude reaches \<open>2 ^ 1024\<close>, where the operation yields an
  infinity.
\<close>

definition rne :: "real \<Rightarrow> int" where
  "rne y =
     (let f = \<lfloor>y\<rfloor>; r = y - of_int f
      in if r < 1 / 2 then f
         else if r > 1 / 2 then f + 1
         else if even f then f else f + 1)"

definition pow2 :: "int \<Rightarrow> real" where
  "pow2 k = 2 powr (of_int k)"

definition expo :: "real \<Rightarrow> int" where
  "expo x = max \<lfloor>log 2 \<bar>x\<bar>\<rfloor> (- 1022)"

definition ulp :: "real \<Rightarrow> real" where
  "ulp x = pow2 (expo x - 52)"

definition round64 :: "real \<Rightarrow> real" where
  "round64 x = (if x = 0 then 0 else of_int (rne (x / ulp x)) * ulp x)"

definition f64 :: "real \<Rightarrow> real option" where
  "f64 x = (let r = round64 x in if \<bar>r\<bar> < 2 ^ 1024 then Some r else None)"

text \<open>
  The operations \<open>+\<close>, \<open>-\<close>, \<open>*\<close>, \<open>/\<close> and \<open>Math.sqrt\<close> on finite doubles, correctly
  rounded. \<open>None\<close> stands for a result that is \<open>NaN\<close> or an infinity, and is passed on by
  the option monad: a calculator that returns \<open>Some v\<close> went through finite doubles only
  and returned the finite double \<open>v\<close>.
\<close>

definition add64 :: "real \<Rightarrow> real \<Rightarrow> real option" where
  "add64 x y = f64 (x + y)"

definition sub64 :: "real \<Rightarrow> real \<Rightarrow> real option" where
  "sub64 x y = f64 (x - y)"

definition mul64 :: "real \<Rightarrow> real \<Rightarrow> real option" where
  "mul64 x y = f64 (x * y)"

definition div64 :: "real \<Rightarrow> real \<Rightarrow> real option" where
  "div64 x y = (if y = 0 then None else f64 (x / y))"

definition sqrt64 :: "real \<Rightarrow> real option" where
  "sqrt64 x = (if x < 0 then None else f64 (sqrt x))"

text \<open>
  \<open>Math.sqrt\<close>, \<open>Math.log\<close> and \<open>Math.log2\<close> as they are called in the metric
  calculators, with a monitor on the argument: the result is \<open>None\<close> unless the argument
  is strictly positive. \<open>Math.exp\<close>, \<open>Math.log\<close> and \<open>Math.log2\<close> are taken to return
  the double nearest to the exact value; ECMAScript leaves their last bit to the
  implementation, and only the magnitude of their results is used below.
\<close>

definition sqrt64_pos :: "real \<Rightarrow> real option" where
  "sqrt64_pos x = (if x \<le> 0 then None else f64 (sqrt x))"

definition log64_pos :: "real \<Rightarrow> real option" where
  "log64_pos x = (if x \<le> 0 then None else f64 (ln x))"

definition log2_64_pos :: "real \<Rightarrow> real option" where
  "log2_64_pos x = (if x \<le> 0 then None else f64 (log 2 x))"

definition exp64 :: "real \<Rightarrow> real option" where
  "exp64 x = f64 (exp x)"

text \<open>The double that a decimal literal of the source, or \<open>Math.LN2\<close>, denotes.\<close>

definition lit :: "real \<Rightarrow> real" where
  "lit v = round64 v"

section \<open>Data model (types.ts)\<close>

record ContingencyTable =
  a :: real
  b :: real
  c :: real
  d :: real
  n :: real

record DisproportionalityScore =
  reaction :: string
  count :: real
  table :: ContingencyTable
  prr :: real
  prrChi2 :: real
  prrPValue :: real
  ror :: real
  rorLower95 :: real
  rorUpper95 :: real
  ic :: real
  ic025 :: real
  ic975 :: real
  isSignal :: bool
  isStrongSignal :: bool
  fdrPValue :: "real option"

text \<open>The pair of bounds that \<open>computeROR_CI\<close> returns.\<close>

record RorCI =
  lower :: real
  upper :: real

section \<open>Chi-squared p-value\<close>

definition normalCDF :: "real \<Rightarrow> real option" where
  "normalCDF x =
     (if x < - 8 then Some 0
      else if x > 8 then Some 1
      else
        let a1 = 0.254829592 :: real;
            a2 = - 0.284496736 :: real;
            a3 = 1.421413741 :: real;
            a4 = - 1.453152027 :: real;
            a5 = 1.061405429 :: real;
            p = 0.3275911 :: real;
            sign = (if x < 0 then - 1 else 1 :: real);
            absX = \<bar>x\<bar>
        in do {
          t \<leftarrow> js_div 1 (1 + p * absX);
          let y = 1 - (((((a5 * t + a4) * t + a3) * t + a2) * t + a1) * t
                        * exp ((- absX * absX) / 2));
          Some (0.5 * (1 + sign * y))
        })"

definition chi2PValue1df :: "real \<Rightarrow> real option" where
  "chi2PValue1df chi2 =
     (if chi2 \<le> 0 then Some 1
      else do {
        r \<leftarrow> js_sqrt chi2;
        cdf \<leftarrow> normalCDF r;
        Some (2 * (1 - cdf))
      })"

section \<open>Disproportionality analysis\<close>

definition computePRR :: "ContingencyTable \<Rightarrow> real option" where
  "computePRR t =
     (if a t + b t = 0 \<or> c t + d t = 0 \<or> c t = 0 then Some 0
      else do {
        x \<leftarrow> js_div (a t) (a t + b t);
        y \<leftarrow> js_div (c t) (c t + d t);
        js_div x y
      })"

definition computeChi2 :: "ContingencyTable \<Rightarrow> real option" where
  "computeChi2 t =
     (let n = a t + b t + c t + d t;
          denom = (a t + b t) * (c t + d t) * (a t + c t) * (b t + d t)
      in if denom = 0 then Some 0
         else let num = (a t * d t - b t * c t) ^ 2 * n in js_div num denom)"

definition computeROR :: "ContingencyTable \<Rightarrow> real option" where
  "computeROR t =
     (if b t = 0 \<or> c t = 0 then Some 0
      else js_div (a t * d t) (b t * c t))"

definition computeROR_CI :: "ContingencyTable \<Rightarrow> RorCI option" where
  "computeROR_CI t =
     (if a t = 0 \<or> b t = 0 \<or> c t = 0 \<or> d t = 0 then Some \<lparr>lower = 0, upper = 0\<rparr>
      else do {
        q \<leftarrow> js_div (a t * d t) (b t * c t);
        lnROR \<leftarrow> js_log q;
        ra \<leftarrow> js_div 1 (a t);
        rb \<leftarrow> js_div 1 (b t);
        rc \<leftarrow> js_div 1 (c t);
        rd \<leftarrow> js_div 1 (d t);
        se \<leftarrow> js_sqrt (ra + rb + rc + rd);
        Some \<lparr>lower = exp (lnROR - 1.96 * se), upper = exp (lnROR + 1.96 * se)\<rparr>
      })"

definition computeIC :: "ContingencyTable \<Rightarrow> real option" where
  "computeIC t =
     (let n = a t + b t + c t + d t
      in if a t = 0 \<or> a t + b t = 0 \<or> a t + c t = 0 then Some 0
         else do {
           expected \<leftarrow> js_div ((a t + b t) * (a t + c t)) n;
           if expected = 0 then Some 0
           else do {
             q \<leftarrow> js_div (a t) expected;
             js_log2 q
           }
         })"

definition computeIC025 :: "ContingencyTable \<Rightarrow> real option" where
  "computeIC025 t =
     do {
       ic \<leftarrow> computeIC t;
       if a t \<le> 0 then Some 0
       else do {
         r \<leftarrow> js_sqrt (max (a t) 0.5);
         se \<leftarrow> js_div 1 (ln 2 * r);
         Some (ic - 1.96 * se)
       }
     }"

definition computeIC975 :: "ContingencyTable \<Rightarrow> real option" where
  "computeIC975 t =
     do {
       ic \<leftarrow> computeIC t;
       if a t \<le> 0 then Some 0
       else do {
         r \<leftarrow> js_sqrt (max (a t) 0.5);
         se \<leftarrow> js_div 1 (ln 2 * r);
         Some (ic + 1.96 * se)
       }
     }"

definition computeDisproportionality ::
    "string \<Rightarrow> real \<Rightarrow> ContingencyTable \<Rightarrow> DisproportionalityScore option" where
  "computeDisproportionality = (\<lambda>reaction count table.
     do {
       prr \<leftarrow> computePRR table;
       chi2 \<leftarrow> computeChi2 table;
       pValue \<leftarrow> chi2PValue1df chi2;
       ror \<leftarrow> computeROR table;
       ci \<leftarrow> computeROR_CI table;
       ic \<leftarrow> computeIC table;
       ic025 \<leftarrow> computeIC025 table;
       ic975 \<leftarrow> computeIC975 table;
       let isSignal = (prr \<ge> 2 \<and> chi2 \<ge> 4 \<and> a table \<ge> 3);
       let isStrongSignal = (lower ci > 1 \<and> ic025 > 0);
       Some \<lparr>reaction = reaction, count = count, table = table,
             prr = prr, prrChi2 = chi2, prrPValue = pValue,
             ror = ror, rorLower95 = lower ci, rorUpper95 = upper ci,
             ic = ic, ic025 = ic025, ic975 = ic975,
             isSignal = isSignal, isStrongSignal = isStrongSignal,
             fdrPValue = None\<rparr>
     })"

text \<open>The table of the worked example in the documentation of \<open>computeDisproportionality\<close>.\<close>

definition exampleTable :: ContingencyTable where
  "exampleTable = \<lparr>a = 150, b = 4850, c = 3000, d = 992000, n = 1000000\<rparr>"

section \<open>The metric calculators on binary64\<close>

text \<open>
  The same functions, operation by operation in the order in which JavaScript evaluates
  them, every intermediate result rounded to binary64. \<open>Math.pow(x, 2)\<close> is the rounded
  square.
\<close>

definition normalCDF64 :: "real \<Rightarrow> real option" where
  "normalCDF64 x =
     (if x < - 8 then Some 0
      else if x > 8 then Some 1
      else
        let a1 = lit 0.254829592;
            a2 = - lit 0.284496736;
            a3 = lit 1.421413741;
            a4 = - lit 1.453152027;
            a5 = lit 1.061405429;
            p = lit 0.3275911;
            sign = (if x < 0 then - 1 else 1 :: real);
            absX = \<bar>x\<bar>
        in do {
          pa \<leftarrow> mul64 p absX;
          den \<leftarrow> add64 1 pa;
          t \<leftarrow> div64 1 den;
          u1 \<leftarrow> mul64 a5 t;
          u2 \<leftarrow> add64 u1 a4;
          u3 \<leftarrow> mul64 u2 t;
          u4 \<leftarrow> add64 u3 a3;
          u5 \<leftarrow> mul64 u4 t;
          u6 \<leftarrow> add64 u5 a2;
          u7 \<leftarrow> mul64 u6 t;
          u8 \<leftarrow> add64 u7 a1;
          u9 \<leftarrow> mul64 u8 t;
          e1 \<leftarrow> mul64 (- absX) absX;
          e2 \<leftarrow> div64 e1 2;
          e3 \<leftarrow> exp64 e2;
          u10 \<leftarrow> mul64 u9 e3;
          y \<leftarrow> sub64 1 u10;
          w1 \<leftarrow> mul64 sign y;
          w2 \<leftarrow> add64 1 w1;
          mul64 0.5 w2
        })"

definition chi2PValue1df64 :: "real \<Rightarrow> real option" where
  "chi2PValue1df64 chi2 =
     (if chi2 \<le> 0 then Some 1
      else do {
        r \<leftarrow> sqrt64_pos chi2;
        cdf \<leftarrow> normalCDF64 r;
        v \<leftarrow> sub64 1 cdf;
        mul64 2 v
      })"

definition computePRR64 :: "ContingencyTable \<Rightarrow> real option" where
  "computePRR64 t =
     do {
       ab \<leftarrow> add64 (a t) (b t);
       cd \<leftarrow> add64 (c t) (d t);
       if ab = 0 \<or> cd = 0 \<or> c t = 0 then Some 0
       else do {
         x \<leftarrow> div64 (a t) ab;
         y \<leftarrow> div64 (c t) cd;
         div64 x y
       }
     }"

definition computeChi2_64 :: "ContingencyTable \<Rightarrow> real option" where
  "computeChi2_64 t =
     do {
       n1 \<leftarrow> add64 (a t) (b t);
       n2 \<leftarrow> add64 n1 (c t);
       n \<leftarrow> add64 n2 (d t);
       ab \<leftarrow> add64 (a t) (b t);
       cd \<leftarrow> add64 (c t) (d t);
       m1 \<leftarrow> mul64 ab cd;
       ac \<leftarrow> add64 (a t) (c t);
       m2 \<leftarrow> mul64 m1 ac;
       bd \<leftarrow> add64 (b t) (d t);
       denom \<leftarrow> mul64 m2 bd;
       if denom = 0 then Some 0
       else do {
         ad \<leftarrow> mul64 (a t) (d t);
         bc \<leftarrow> mul64 (b t) (c t);
         df \<leftarrow> sub64 ad bc;
         sq \<leftarrow> f64 (df ^ 2);
         num \<leftarrow> mul64 sq n;
         div64 num denom
       }
     }"

definition computeROR64 :: "ContingencyTable \<Rightarrow> real option" where
  "computeROR64 t =
     (if b t = 0 \<or> c t = 0 then Some 0
      else do {
        ad \<leftarrow> mul64 (a t) (d t);
        bc \<leftarrow> mul64 (b t) (c t);
        div64 ad bc
      })"

definition computeROR_CI64 :: "ContingencyTable \<Rightarrow> RorCI option" where
  "computeROR_CI64 t =
     (if a t = 0 \<or> b t = 0 \<or> c t = 0 \<or> d t = 0 then Some \<lparr>lower = 0, upper = 0\<rparr>
      else do {
        ad \<leftarrow> mul64 (a t) (d t);
        bc \<leftarrow> mul64 (b t) (c t);
        q \<leftarrow> div64 ad bc;
        lnROR \<leftarrow> log64_pos q;
        ra \<leftarrow> div64 1 (a t);
        rb \<leftarrow> div64 1 (b t);
        s1 \<leftarrow> add64 ra rb;
        rc \<leftarrow> div64 1 (c t);
        s2 \<leftarrow> add64 s1 rc;
        rd \<leftarrow> div64 1 (d t);
        s3 \<leftarrow> add64 s2 rd;
        se \<leftarrow> sqrt64_pos s3;
        m \<leftarrow> mul64 (lit 1.96) se;
        lo \<leftarrow> sub64 lnROR m;
        l \<leftarrow> exp64 lo;
        hi \<leftarrow> add64 lnROR m;
        u \<leftarrow> exp64 hi;
        Some \<lparr>lower = l, upper = u\<rparr>
      })"

definition computeIC64 :: "ContingencyTable \<Rightarrow> real option" where
  "computeIC64 t =
     do {
       n1 \<leftarrow> add64 (a t) (b t);
       n2 \<leftarrow> add64 n1 (c t);
       n \<leftarrow> add64 n2 (d t);
       ab \<leftarrow> add64 (a t) (b t);
       ac \<leftarrow> add64 (a t) (c t);
       if a t = 0 \<or> ab = 0 \<or> ac = 0 then Some 0
       else do {
         m \<leftarrow> mul64 ab ac;
         expected \<leftarrow> div64 m n;
         if expected = 0 then Some 0
         else do {
           q \<leftarrow> div64 (a t) expected;
           log2_64_pos q
         }
       }
     }"

definition computeIC025_64 :: "ContingencyTable \<Rightarrow> real option" where
  "computeIC025_64 t =
     do {
       ic \<leftarrow> computeIC64 t;
       if a t \<le> 0 then Some 0
       else do {
         r \<leftarrow> sqrt64_pos (max (a t) 0.5);
         l \<leftarrow> mul64 (lit (ln 2)) r;
         se \<leftarrow> div64 1 l;
         m \<leftarrow> mul64 (lit 1.96) se;
         sub64 ic m
       }
     }"

definition computeIC975_64 :: "ContingencyTable \<Rightarrow> real option" where
  "computeIC975_64 t =
     do {
       ic \<leftarrow> computeIC64 t;
       if a t \<le> 0 then Some 0
       else do {
         r \<leftarrow> sqrt64_pos (max (a t) 0.5);
         l \<leftarrow> mul64 (lit (ln 2)) r;
         se \<leftarrow> div64 1 l;
         m \<leftarrow> mul64 (lit 1.96) se;
         add64 ic m
       }
     }"

text \<open>
  Tables of report counts: the four cells are natural numbers and their total is at most
  \<open>2 ^ 53\<close>, so that the cells and all their sums are doubles and are added without
  rounding. \<open>inrange i j x\<close> bounds a positive number between two powers of two.
\<close>

definition safeCounts :: "ContingencyTable \<Rightarrow> bool" where
  "safeCounts t \<longleftrightarrow>
     a t \<in> \<nat> \<and> b t \<in> \<nat> \<and> c t \<in> \<nat> \<and> d t \<in> \<nat> \<and> a t + b t + c t + d t \<le> 2 ^ 53"

definition inrange :: "int \<Rightarrow> int \<Rightarrow> real \<Rightarrow> bool" where
  "inrange i j x \<longleftrightarrow> pow2 i \<le> x \<and> x \<le> pow2 j"

section \<open>Multiple testing correction: Benjamini-Hochberg\<close>

text \<open>
  From here on every divisor is a length or a rank that a guard has made positive, and
  every square root is taken of a mean of squares, so the operations are the plain ones
  of the reals. An \<open>option\<close> in this part is a value that may be \<open>undefined\<close>: an unset
  \<open>fdrPValue\<close>, a hole of \<open>new Array(m)\<close>, a z-score with too small a window.
\<close>

text \<open>The items \<open>{ idx, p }\<close> that \<open>applyBenjaminiHochberg\<close> sorts.\<close>

record IndexedP =
  idx :: nat
  p :: real

text \<open>
  The loop \<open>for (let rank = m; rank >= 1; rank--)\<close>, on the running minimum and the
  array \<open>adjusted\<close>. Every \<open>idx\<close> is below \<open>m\<close>, so each store is in range.
\<close>

fun bh_walk :: "IndexedP list \<Rightarrow> nat \<Rightarrow> nat \<Rightarrow> real \<Rightarrow> real option list \<Rightarrow> real option list" where
  "bh_walk indexed m rank cumMin adjusted =
     (if rank \<ge> 1 then
        let item = indexed ! (rank - 1);
            raw = (p item * real m) / real rank;
            cumMin' = min cumMin raw
        in bh_walk indexed m (rank - 1) cumMin' (adjusted[idx item := Some (min cumMin' 1)])
      else adjusted)"

text \<open>
  \<open>indexed.sort((a, b) => a.p - b.p)\<close> sorts the array in place; it is a stable sort,
  ascending in \<open>p\<close>: \<open>sort_key\<close>, which keeps the order of equal keys.
  \<open>scores.map((s, i) => ...)\<close> runs over the indices of \<open>scores\<close>.
\<close>

definition applyBenjaminiHochberg :: "DisproportionalityScore list \<Rightarrow> DisproportionalityScore list" where
  "applyBenjaminiHochberg scores =
     (if length scores = 0 then scores
      else
        let m = length scores;
            indexed = map (\<lambda>i. \<lparr>idx = i, p = prrPValue (scores ! i)\<rparr>) [0..<m];
            indexed = sort_key p indexed;
            adjusted = bh_walk indexed m m 1 (replicate m None)
        in map (\<lambda>i. (scores ! i)\<lparr>fdrPValue := adjusted ! i\<rparr>) [0..<m])"

section \<open>Time-series statistics\<close>

text \<open>
  \<open>Array.prototype.slice(start, end)\<close> on integer arguments: a negative argument counts
  from the end of the array, both are clamped to the array, and the result is empty when
  the clamped end is not beyond the clamped start.
\<close>

definition js_slice :: "'a list \<Rightarrow> int \<Rightarrow> int \<Rightarrow> 'a list" where
  "js_slice xs start stop =
     (let len = int (length xs);
          k = (if start < 0 then max (len + start) 0 else min start len);
          final = (if stop < 0 then max (len + stop) 0 else min stop len)
      in take (nat (final - k)) (drop (nat k) xs))"

text \<open>
  An element of the array that \<open>rollingZScore\<close> returns: \<open>undefined\<close>, a finite number,
  or \<open>NaN\<close> or an infinity. The function is read on binary64: the two \<open>reduce\<close> calls add
  from the left, each sum, difference, square and quotient is rounded.
\<close>

datatype zscore = Undefined | Number real | NotFinite

definition rollingZScore :: "real list \<Rightarrow> real \<Rightarrow> zscore list" where
  "rollingZScore data window =
     (let halfW = \<lfloor>window / 2\<rfloor>
      in map (\<lambda>i.
            let val = data ! i;
                start = max 0 (int i - halfW);
                stop = min (int (length data) - 1) (int i + halfW);
                slice = js_slice data start (stop + 1)
            in if length slice < 3 then Undefined
               else
                 case
                   do {
                     total \<leftarrow> foldl (\<lambda>s v. do { s \<leftarrow> s; add64 s v }) (Some 0) slice;
                     mean \<leftarrow> div64 total (real (length slice));
                     squares \<leftarrow>
                       foldl (\<lambda>s v. do { s \<leftarrow> s; dv \<leftarrow> sub64 v mean; q \<leftarrow> f64 (dv ^ 2); add64 s q })
                         (Some 0) slice;
                     variance \<leftarrow> div64 squares (real (length slice));
                     std \<leftarrow> sqrt64 variance;
                     if std = 0 then Some 0
                     else do { dv \<leftarrow> sub64 val mean; div64 dv std }
                   }
                 of None \<Rightarrow> NotFinite | Some z \<Rightarrow> Number z)
          [0..<length data])"

text \<open>
  The loop \<open>for (let i = 1; i < data.length; i++)\<close> of \<open>detectChangepoints\<close>, on the
  two running sums and the list of changepoints found so far.
\<close>

function cusum_loop ::
    "real list \<Rightarrow> real \<Rightarrow> real \<Rightarrow> real \<Rightarrow> nat \<Rightarrow> real \<Rightarrow> real \<Rightarrow> nat list \<Rightarrow> nat list" where
  "cusum_loop data mean std h i sPos sNeg changepoints =
     (if i < length data then
        let diff = data ! i - mean;
            sPos' = max 0 (sPos + diff - std * 0.5);
            sNeg' = min 0 (sNeg + diff + std * 0.5)
        in if sPos' > h \<or> sNeg' < - h
           then cusum_loop data mean std h (i + 1) 0 0 (changepoints @ [i])
           else cusum_loop data mean std h (i + 1) sPos' sNeg' changepoints
      else changepoints)"
  by pat_completeness auto
termination
  by (relation "measure (\<lambda>(data, mean, std, h, i, rest). length data - i)") auto

definition detectChangepoints :: "real list \<Rightarrow> real option \<Rightarrow> nat list" where
  "detectChangepoints data threshold =
     (if length data < 10 then []
      else
        let mean = foldl (\<lambda>s v. s + v) 0 data / real (length data);
            std = sqrt (foldl (\<lambda>s v. s + (v - mean) ^ 2) 0 data / real (length data));
            h = (case threshold of Some th \<Rightarrow> th | None \<Rightarrow> std * 4)
        in cusum_loop data mean std h 1 0 0 [])"

section \<open>The window of the rolling z-score, as the specification words it\<close>

text \<open>
  The points of the centered window \<open>[max(0, i - \<lfloor>w/2\<rfloor>), min(len - 1, i + \<lfloor>w/2\<rfloor>)]\<close>
  (none when the upper end is below the lower end), their mean and their population
  standard deviation.
\<close>

definition centered_window :: "real list \<Rightarrow> real \<Rightarrow> nat \<Rightarrow> real list" where
  "centered_window data w i =
     map (\<lambda>k. data ! k)
       [nat (max 0 (int i - \<lfloor>w / 2\<rfloor>)) ..< nat (min (int (length data) - 1) (int i + \<lfloor>w / 2\<rfloor>) + 1)]"

definition mean_of :: "real list \<Rightarrow> real" where
  "mean_of xs = sum_list xs / real (length xs)"

definition population_std :: "real list \<Rightarrow> real" where
  "population_std xs = sqrt (sum_list (map (\<lambda>v. (v - mean_of xs) ^ 2) xs) / real (length xs))"

text \<open>A score with a given raw p-value, to run the correction on concrete batches.\<close>

definition scoreWithP :: "real \<Rightarrow> DisproportionalityScore" where
  "scoreWithP q =
     \<lparr>reaction = ''NAUSEA'', count = 1, table = \<lparr>a = 1, b = 1, c = 1, d = 1, n = 4\<rparr>,
      prr = 1, prrChi2 = 0, prrPValue = q, ror = 1, rorLower95 = 0, rorUpper95 = 0,
      ic = 0, ic025 = 0, ic975 = 0, isSignal = False, isStrongSignal = False,
      fdrPValue = None\<rparr>"

text \<open>The double that the literal \<open>0.1\<close> denotes.\<close>

definition tenth :: real where
  "tenth = 3602879701896397 / 36028797018963968"

section \<open>Verification: metric calculators\<close>

lemma js_div_Some: "y \<noteq> 0 \<Longrightarrow> js_div x y = Some (x / y)"
  by (simp add: js_div_def)

lemma js_sqrt_Some: "0 \<le> x \<Longrightarrow> js_sqrt x = Some (sqrt x)"
  by (simp add: js_sqrt_def)

lemma js_log_Some: "0 < x \<Longrightarrow> js_log x = Some (ln x)"
  by (simp add: js_log_def)

lemma js_log2_Some: "0 < x \<Longrightarrow> js_log2 x = Some (log 2 x)"
  by (simp add: js_log2_def)

lemma normalCDF_total: "normalCDF x \<noteq> None"
proof -
  have nz: "1 + 0.3275911 * \<bar>x\<bar> \<noteq> 0"
  proof -
    have "0 \<le> 0.3275911 * \<bar>x\<bar>" by simp
    then show ?thesis by linarith
  qed
  show ?thesis
    unfolding normalCDF_def Let_def js_div_Some [OF nz]
    by (cases "x < - 8"; cases "8 < x")
       (simp_all only: bind.bind_lunit if_True if_False option.distinct not_False_eq_True)
qed

lemma chi2PValue1df_total: "chi2PValue1df x \<noteq> None"
proof (cases "x \<le> 0")
  case True
  then show ?thesis by (simp add: chi2PValue1df_def)
next
  case False
  obtain v where "normalCDF (sqrt x) = Some v"
    using normalCDF_total [of "sqrt x"] by auto
  with False show ?thesis
    by (simp add: chi2PValue1df_def js_sqrt_def)
qed

lemma computeROR_total: "computeROR t \<noteq> None"
  by (simp add: computeROR_def js_div_def)

lemma computeIC_total:
  assumes "0 \<le> a t" "0 \<le> b t" "0 \<le> c t" "0 \<le> d t"
  shows "computeIC t \<noteq> None"
proof (cases "a t = 0 \<or> a t + b t = 0 \<or> a t + c t = 0")
  case True
  then show ?thesis by (simp add: computeIC_def)
next
  case False
  with assms have pos: "0 < a t" by auto
  with assms have npos: "0 < a t + b t + c t + d t" by linarith
  from pos assms have e: "0 < (a t + b t) * (a t + c t) / (a t + b t + c t + d t)"
    using npos by (simp add: add_pos_nonneg)
  then have q: "0 < a t / ((a t + b t) * (a t + c t) / (a t + b t + c t + d t))"
    using pos by (simp only: divide_pos_pos)
  from False npos e q show ?thesis
    by (simp add: computeIC_def js_div_def js_log2_def Let_def del: divide_divide_eq_right)
qed

lemma computeIC975_total:
  assumes "0 \<le> a t" "0 \<le> b t" "0 \<le> c t" "0 \<le> d t"
  shows "computeIC975 t \<noteq> None"
proof -
  obtain v where v: "computeIC t = Some v"
    using computeIC_total [OF assms] by auto
  have "0 < sqrt (max (a t) 0.5)" by simp
  then have "ln 2 * sqrt (max (a t) 0.5) \<noteq> 0" by simp
  then show ?thesis
    using v by (simp add: computeIC975_def js_sqrt_def js_div_def)
qed

lemma computeChi2_formula:
  assumes "(a t + b t) * (c t + d t) * (a t + c t) * (b t + d t) \<noteq> 0"
  shows "computeChi2 t =
     Some ((a t * d t - b t * c t) ^ 2 * (a t + b t + c t + d t)
           / ((a t + b t) * (c t + d t) * (a t + c t) * (b t + d t)))"
  unfolding computeChi2_def Let_def
  by (simp only: assms if_False js_div_Some [OF assms])

lemma computeIC_formula:
  assumes "0 < a t" "0 \<le> b t" "0 \<le> c t" "0 \<le> d t"
  shows "computeIC t =
     Some (log 2 (a t / ((a t + b t) * (a t + c t) / (a t + b t + c t + d t))))"
proof -
  from assms have g: "\<not> (a t = 0 \<or> a t + b t = 0 \<or> a t + c t = 0)" by auto
  from assms have npos: "0 < a t + b t + c t + d t" by linarith
  then have nz: "a t + b t + c t + d t \<noteq> 0" by simp
  from assms have e: "0 < (a t + b t) * (a t + c t) / (a t + b t + c t + d t)"
    using npos by (simp add: add_pos_nonneg)
  then have ez: "(a t + b t) * (a t + c t) / (a t + b t + c t + d t) \<noteq> 0" by linarith
  from e have q: "0 < a t / ((a t + b t) * (a t + c t) / (a t + b t + c t + d t))"
    using assms(1) by (simp only: divide_pos_pos)
  show ?thesis
    unfolding computeIC_def Let_def
    by (simp only: g if_False js_div_Some [OF nz] js_div_Some [OF ez] js_log2_Some [OF q]
          bind.bind_lunit ez)
qed

text \<open>
  Claim C1, amended. For a table of non-negative counts whose four marginal
  totals are nonzero, \<open>computeChi2\<close> returns
  \<open>(ad - bc)\<^sup>2 (a+b+c+d) / ((a+b)(c+d)(a+c)(b+d))\<close>, and \<open>computeIC\<close> returns
  \<open>log\<^sub>2 (a / expected)\<close> with \<open>expected = (a+b)(a+c) / (a+b+c+d)\<close> (and 0 when
  \<open>a = 0\<close>). The total is recomputed from the four cells: the field \<open>n\<close> of the table
  is never read, so replacing it by any \<open>k\<close> changes neither result.
\<close>

theorem chi2_ic_recompute_n:
  assumes "0 \<le> a t" "0 \<le> b t" "0 \<le> c t" "0 \<le> d t"
    and "a t + b t \<noteq> 0" "c t + d t \<noteq> 0" "a t + c t \<noteq> 0" "b t + d t \<noteq> 0"
  shows "computeChi2 t =
           Some ((a t * d t - b t * c t) ^ 2 * (a t + b t + c t + d t)
                 / ((a t + b t) * (c t + d t) * (a t + c t) * (b t + d t)))
       \<and> computeIC t =
           (if a t = 0 then Some 0
            else Some (log 2 (a t / ((a t + b t) * (a t + c t) / (a t + b t + c t + d t)))))
       \<and> computeChi2 (t\<lparr>n := k\<rparr>) = computeChi2 t
       \<and> computeIC (t\<lparr>n := k\<rparr>) = computeIC t"
proof (intro conjI)
  from assms(5-8) have "(a t + b t) * (c t + d t) * (a t + c t) * (b t + d t) \<noteq> 0"
    by simp
  then show "computeChi2 t =
           Some ((a t * d t - b t * c t) ^ 2 * (a t + b t + c t + d t)
                 / ((a t + b t) * (c t + d t) * (a t + c t) * (b t + d t)))"
    by (rule computeChi2_formula)
  show "computeIC t =
           (if a t = 0 then Some 0
            else Some (log 2 (a t / ((a t + b t) * (a t + c t) / (a t + b t + c t + d t)))))"
  proof (cases "a t = 0")
    case True
    then show ?thesis by (simp add: computeIC_def)
  next
    case False
    with assms(1) have "0 < a t" by simp
    from computeIC_formula [OF this assms(2-4)] False show ?thesis by simp
  qed
  show "computeChi2 (t\<lparr>n := k\<rparr>) = computeChi2 t"
    by (simp add: computeChi2_def)
  show "computeIC (t\<lparr>n := k\<rparr>) = computeIC t"
    by (simp add: computeIC_def cong: if_cong)
qed

theorem chi2_ic_recompute_n_witness:
  "computeChi2 \<lparr>a = 2, b = 1, c = 1, d = 2, n = 100\<rparr> = Some (2 / 3)
   \<and> computeIC \<lparr>a = 2, b = 1, c = 1, d = 2, n = 100\<rparr> = Some (log 2 (4 / 3))"
  using chi2_ic_recompute_n [of "\<lparr>a = 2, b = 1, c = 1, d = 2, n = 100\<rparr>" 100] by simp

text \<open>
  Claim C1 as stated fails: on a table whose \<open>n\<close> field is 100 while the cells sum to 6,
  \<open>computeChi2\<close> does not return the value of the formula taken with the supplied
  \<open>n\<close>.
\<close>

theorem chi2_ignores_supplied_n:
  "computeChi2 \<lparr>a = 2, b = 1, c = 1, d = 2, n = 100\<rparr>
     \<noteq> Some ((2 * 2 - 1 * 1) ^ 2 * 100 / ((2 + 1) * (1 + 2) * (2 + 1) * (1 + 2)))"
  by (simp add: computeChi2_def js_div_def)

lemma exp_2_less_10: "exp (2::real) < 10"
proof -
  have "exp (2 * (1::real)) = exp 1 ^ 2" by (rule exp_double)
  also have "\<dots> \<le> 3 ^ 2" by (rule power_mono [OF exp_le]) simp
  finally show ?thesis by simp
qed

lemma ln_2_gt_half: "1 / 2 < ln (2::real)"
proof -
  have "exp (1 / 2 :: real) ^ 2 = exp 1" using exp_double [of "1 / 2 :: real"] by simp
  also have "\<dots> \<le> 3" by (rule exp_le)
  finally have "exp (1 / 2 :: real) ^ 2 < 2 ^ 2" by simp
  then have "exp (1 / 2 :: real) < 2" by (rule power2_less_imp_less) simp
  then have "ln (exp (1 / 2 :: real)) < ln 2"
    by (subst ln_less_cancel_iff) simp_all
  then show ?thesis by simp
qed

lemma example_prr: "computePRR exampleTable = Some (199 / 20)"
  by (simp add: computePRR_def exampleTable_def js_div_def)

lemma example_chi2: "computeChi2 exampleTable = Some (32041000000 / 27772241)"
  by (simp add: computeChi2_def exampleTable_def js_div_def)

lemma example_ror: "computeROR exampleTable \<noteq> None"
  by (rule computeROR_total)

lemma example_ci:
  "\<exists>ci. computeROR_CI exampleTable = Some ci \<and> 1 < lower ci"
proof -
  let ?q = "150 * 992000 / (4850 * 3000) :: real"
  let ?s = "1 / 150 + 1 / 4850 + 1 / 3000 + 1 / 992000 :: real"
  have ci: "computeROR_CI exampleTable =
      Some \<lparr>lower = exp (ln ?q - 1.96 * sqrt ?s), upper = exp (ln ?q + 1.96 * sqrt ?s)\<rparr>"
    by (simp add: computeROR_CI_def exampleTable_def js_div_def js_log_def js_sqrt_def)
  have "exp 2 < ?q" using exp_2_less_10 by simp
  then have "ln (exp 2) < ln ?q" by (subst ln_less_cancel_iff) simp_all
  then have lnq: "2 < ln ?q" by simp
  define se where "se = sqrt ?s"
  have "se < 1" unfolding se_def by (subst real_sqrt_lt_1_iff) simp
  then have "1.96 * se < 2" by (simp; linarith)
  with lnq have "0 < ln ?q - 1.96 * se" by linarith
  then have "0 < ln ?q - 1.96 * sqrt ?s" unfolding se_def .
  then have "1 < exp (ln ?q - 1.96 * sqrt ?s)" by simp
  with ci show ?thesis by simp
qed

lemma example_ic: "computeIC exampleTable = Some (log 2 (150 / (5000 * 3150 / 1000000)))"
  using computeIC_formula [of exampleTable] by (simp add: exampleTable_def)

lemma example_ic_ge: "3 \<le> log 2 (150 / (5000 * 3150 / 1000000))"
proof -
  have "(2::real) powr 3 \<le> 150 / (5000 * 3150 / 1000000)" by simp
  then show ?thesis by (subst le_log_iff) simp_all
qed

lemma example_se: "1.96 * (1 / (ln 2 * sqrt 150)) < (1::real)"
proof -
  have "sqrt (12 ^ 2) \<le> sqrt (150::real)" by (subst real_sqrt_le_iff) simp
  then have s: "12 \<le> sqrt (150::real)" by simp
  have "1 / 2 * 12 < ln 2 * sqrt (150::real)"
    using ln_2_gt_half s by (intro mult_less_le_imp_less) simp_all
  then have "6 < ln 2 * sqrt (150::real)" by simp
  then have "1 / (ln 2 * sqrt 150) < 1 / (6::real)"
    by (intro divide_strict_left_mono) simp_all
  then show ?thesis by simp
qed

lemma example_ic025:
  "\<exists>v. computeIC025 exampleTable = Some v \<and> 0 < v"
proof -
  define v where "v = log 2 (150 / (5000 * 3150 / 1000000)) - 1.96 * (1 / (ln 2 * sqrt 150))"
  have "computeIC025 exampleTable = Some v"
    unfolding computeIC025_def example_ic v_def
    by (simp add: exampleTable_def js_sqrt_def js_div_def)
  moreover have gap: "3 \<le> l \<Longrightarrow> e < 1 \<Longrightarrow> 0 < l - e" for l e :: real
    by linarith
  have "0 < v"
    unfolding v_def by (rule gap [OF example_ic_ge example_se])
  ultimately show ?thesis by blast
qed

lemma example_score:
  "\<exists>s. computeDisproportionality r k exampleTable = Some s
      \<and> prr s = 199 / 20 \<and> isSignal s \<and> isStrongSignal s"
proof -
  obtain pv where pv: "chi2PValue1df (32041000000 / 27772241) = Some pv"
    using chi2PValue1df_total [of "32041000000 / 27772241"] by auto
  obtain rr where rr: "computeROR exampleTable = Some rr"
    using computeROR_total [of exampleTable] by auto
  obtain ci where ci: "computeROR_CI exampleTable = Some ci" and lo: "1 < lower ci"
    using example_ci by blast
  obtain v where v: "computeIC025 exampleTable = Some v" and vpos: "0 < v"
    using example_ic025 by blast
  obtain w where w: "computeIC975 exampleTable = Some w"
    using computeIC975_total [of exampleTable] by (auto simp: exampleTable_def)
  have a3: "3 \<le> a exampleTable" by (simp add: exampleTable_def)
  show ?thesis
    unfolding computeDisproportionality_def
    by (simp add: example_prr example_chi2 pv rr ci example_ic v w lo vpos a3)
qed

text \<open>
  Claim C2. On the table of the worked example \<open>computeDisproportionality\<close> returns,
  for every reaction label and count, a score with \<open>isSignal\<close> and \<open>isStrongSignal\<close>
  true, as the claim says, but with \<open>prr = (150/5000) / (3000/995000) = 9.95\<close>, where the
  claim, the comment of the documented example and the README give 10.0 (in
  exact arithmetic; the double the program returns is within rounding of 9.95).
\<close>

theorem example_prr_signal:
  "\<exists>s. computeDisproportionality r k exampleTable = Some s
      \<and> prr s = 9.95 \<and> isSignal s \<and> isStrongSignal s"
  using example_score [of r k] by simp

text \<open>The PRR that the code returns on the worked example is not 10.\<close>

lemma example_prr_not_10:
  "map_option prr (computeDisproportionality ''NAUSEA'' 150 exampleTable) \<noteq> Some 10"
proof -
  obtain s where "computeDisproportionality ''NAUSEA'' 150 exampleTable = Some s"
    and "prr s = 199 / 20"
    using example_score [of "''NAUSEA''" 150] by blast
  then show ?thesis by simp
qed

section \<open>Verification: Benjamini-Hochberg correction\<close>

declare bh_walk.simps [simp del]

lemma insort_key_map:
  "insort_key f (g x) (map g xs) = map g (insort_key (\<lambda>y. f (g y)) x xs)"
  by (induction xs) simp_all

lemma sort_key_map:
  "sort_key f (map g xs) = map g (sort_key (\<lambda>y. f (g y)) xs)"
  by (induction xs) (simp_all add: insort_key_map)

lemma bh_walk_0: "bh_walk ix m 0 cm adj = adj"
  by (subst bh_walk.simps) simp

lemma bh_walk_Suc:
  "bh_walk ix m (Suc r) cm adj =
     bh_walk ix m r (min cm (p (ix ! r) * real m / real (Suc r)))
       (adj[idx (ix ! r) := Some (min (min cm (p (ix ! r) * real m / real (Suc r))) 1)])"
  by (subst bh_walk.simps) (simp add: Let_def)

lemma bh_walk_invariant:
  assumes "r \<le> length ix" "distinct (map idx ix)"
    and "\<forall>k < length ix. idx (ix ! k) < length adj"
  shows "length (bh_walk ix m r cm adj) = length adj
       \<and> (\<forall>j. j \<notin> idx ` set (take r ix) \<longrightarrow> bh_walk ix m r cm adj ! j = adj ! j)
       \<and> (\<forall>k < r. \<exists>v. bh_walk ix m r cm adj ! idx (ix ! k) = Some v \<and> v \<le> min cm 1)
       \<and> (\<forall>k k'. k \<le> k' \<and> k' < r \<longrightarrow>
             the (bh_walk ix m r cm adj ! idx (ix ! k)) \<le> the (bh_walk ix m r cm adj ! idx (ix ! k')))"
  using assms
proof (induction r arbitrary: cm adj)
  case 0
  then show ?case by (simp add: bh_walk_0)
next
  case (Suc r)
  define cm' where "cm' = min cm (p (ix ! r) * real m / real (Suc r))"
  define adj1 where "adj1 = adj[idx (ix ! r) := Some (min cm' 1)]"
  define res where "res = bh_walk ix m r cm' adj1"
  have step: "bh_walk ix m (Suc r) cm adj = res"
    unfolding res_def adj1_def cm'_def by (rule bh_walk_Suc)
  from Suc.prems have r: "r < length ix" by simp
  have rng: "\<forall>k < length ix. idx (ix ! k) < length adj1"
    using Suc.prems(3) by (simp add: adj1_def)
  from Suc.IH [of adj1 cm', folded res_def] r Suc.prems(2) rng
  have len: "length res = length adj1"
    and keep: "\<And>j. j \<notin> idx ` set (take r ix) \<Longrightarrow> res ! j = adj1 ! j"
    and some: "\<And>k. k < r \<Longrightarrow> \<exists>v. res ! idx (ix ! k) = Some v \<and> v \<le> min cm' 1"
    and mono: "\<And>k k'. k \<le> k' \<Longrightarrow> k' < r \<Longrightarrow>
                 the (res ! idx (ix ! k)) \<le> the (res ! idx (ix ! k'))"
    by simp_all
  have fresh: "idx (ix ! r) \<notin> idx ` set (take r ix)"
  proof
    assume "idx (ix ! r) \<in> idx ` set (take r ix)"
    then obtain k where k: "k < r" and e: "idx (ix ! k) = idx (ix ! r)"
      using r by (auto simp: in_set_conv_nth)
    from k r have kl: "k < length (map idx ix)" and rl: "r < length (map idx ix)"
      by simp_all
    from k r e have "map idx ix ! k = map idx ix ! r" by simp
    with nth_eq_iff_index_eq [OF Suc.prems(2) kl rl] have "k = r" by simp
    with k show False by simp
  qed
  have at_r: "res ! idx (ix ! r) = Some (min cm' 1)"
    using keep [OF fresh] Suc.prems(3) r by (simp add: adj1_def)
  have tk: "take (Suc r) ix = take r ix @ [ix ! r]"
    using r by (rule take_Suc_conv_app_nth)
  have cmle: "min cm' 1 \<le> min cm 1"
    by (simp add: cm'_def)
  have A: "length res = length adj"
    using len by (simp add: adj1_def)
  have B: "\<forall>j. j \<notin> idx ` set (take (Suc r) ix) \<longrightarrow> res ! j = adj ! j"
  proof (intro allI impI)
    fix j assume j: "j \<notin> idx ` set (take (Suc r) ix)"
    then have "j \<notin> idx ` set (take r ix)" and "j \<noteq> idx (ix ! r)"
      by (auto simp: tk)
    then show "res ! j = adj ! j"
      using keep [of j] by (simp add: adj1_def)
  qed
  have C: "\<forall>k < Suc r. \<exists>v. res ! idx (ix ! k) = Some v \<and> v \<le> min cm 1"
  proof (intro allI impI)
    fix k assume "k < Suc r"
    then consider "k < r" | "k = r" by linarith
    then show "\<exists>v. res ! idx (ix ! k) = Some v \<and> v \<le> min cm 1"
    proof cases
      case 1
      from some [OF 1] cmle show ?thesis by force
    next
      case 2
      with at_r cmle show ?thesis by simp
    qed
  qed
  have D: "\<forall>k k'. k \<le> k' \<and> k' < Suc r \<longrightarrow>
             the (res ! idx (ix ! k)) \<le> the (res ! idx (ix ! k'))"
  proof (intro allI impI)
    fix k k' assume kk: "k \<le> k' \<and> k' < Suc r"
    then consider "k' < r" | "k' = r" "k = r" | "k' = r" "k < r" by linarith
    then show "the (res ! idx (ix ! k)) \<le> the (res ! idx (ix ! k'))"
    proof cases
      case 1
      with kk mono show ?thesis by simp
    next
      case 2
      then show ?thesis by simp
    next
      case 3
      from some [OF 3(2)] at_r 3(1) show ?thesis by force
    qed
  qed
  from A B C D show ?case unfolding step by blast
qed

lemma bh_structure:
  fixes scores :: "DisproportionalityScore list"
  defines "perm \<equiv> sort_key (\<lambda>i. prrPValue (scores ! i)) [0..<length scores]"
  shows "\<exists>adj. length adj = length scores
       \<and> applyBenjaminiHochberg scores
           = map (\<lambda>i. (scores ! i)\<lparr>fdrPValue := adj ! i\<rparr>) [0..<length scores]
       \<and> (\<forall>k < length scores. \<exists>v. adj ! (perm ! k) = Some v)
       \<and> (\<forall>k k'. k \<le> k' \<and> k' < length scores \<longrightarrow>
             the (adj ! (perm ! k)) \<le> the (adj ! (perm ! k')))"
proof (cases "scores = []")
  case True
  then show ?thesis by (simp add: applyBenjaminiHochberg_def)
next
  case False
  define m where "m = length scores"
  define g where "g = (\<lambda>i. \<lparr>idx = i, p = prrPValue (scores ! i)\<rparr>)"
  define ix where "ix = map g perm"
  define adj where "adj = bh_walk ix m m 1 (replicate m None)"
  have srt: "sort_key p (map g [0..<m]) = ix"
    unfolding ix_def perm_def m_def sort_key_map by (simp add: g_def)
  have out: "applyBenjaminiHochberg scores
           = map (\<lambda>i. (scores ! i)\<lparr>fdrPValue := adj ! i\<rparr>) [0..<length scores]"
    using False srt
    by (simp add: applyBenjaminiHochberg_def Let_def adj_def g_def m_def)
  have lp: "length perm = m" by (simp add: perm_def m_def)
  have li: "length ix = m" by (simp add: ix_def lp)
  have ip: "map idx ix = perm" by (simp add: ix_def g_def comp_def)
  have dp: "distinct (map idx ix)" unfolding ip by (simp add: perm_def)
  have nth_ix: "idx (ix ! k) = perm ! k" if "k < m" for k
    using that lp by (simp add: ix_def g_def)
  have rng: "\<forall>k < length ix. idx (ix ! k) < length (replicate m (None :: real option))"
  proof (intro allI impI)
    fix k assume k: "k < length ix"
    then have "perm ! k \<in> set perm" using li lp by simp
    then have "perm ! k < m" by (simp add: perm_def m_def)
    with k li show "idx (ix ! k) < length (replicate m (None :: real option))"
      by (simp add: nth_ix)
  qed
  have ml: "m \<le> length ix" by (simp add: li)
  from bh_walk_invariant [OF ml dp rng, of m 1, folded adj_def]
  have len: "length adj = m"
    and some: "\<And>k. k < m \<Longrightarrow> \<exists>v. adj ! idx (ix ! k) = Some v"
    and mono: "\<And>k k'. k \<le> k' \<Longrightarrow> k' < m \<Longrightarrow>
               the (adj ! idx (ix ! k)) \<le> the (adj ! idx (ix ! k'))"
    by auto
  have S: "\<forall>k < length scores. \<exists>v. adj ! (perm ! k) = Some v"
    using some by (simp add: nth_ix flip: m_def)
  have M: "\<forall>k k'. k \<le> k' \<and> k' < length scores \<longrightarrow>
             the (adj ! (perm ! k)) \<le> the (adj ! (perm ! k'))"
  proof (intro allI impI)
    fix k k' assume kk: "k \<le> k' \<and> k' < length scores"
    then have "k < m" "k' < m" by (simp_all add: m_def)
    with mono [of k k'] kk show "the (adj ! (perm ! k)) \<le> the (adj ! (perm ! k'))"
      by (simp add: nth_ix)
  qed
  from len out S M show ?thesis unfolding m_def by blast
qed

lemma bh_stable_sorted:
  "\<exists>fs. map fdrPValue (sort_key prrPValue (applyBenjaminiHochberg scores)) = map Some fs
      \<and> sorted fs"
proof -
  define perm where "perm = sort_key (\<lambda>i. prrPValue (scores ! i)) [0..<length scores]"
  obtain adj where out: "applyBenjaminiHochberg scores
           = map (\<lambda>i. (scores ! i)\<lparr>fdrPValue := adj ! i\<rparr>) [0..<length scores]"
    and some: "\<forall>k < length scores. \<exists>v. adj ! (perm ! k) = Some v"
    and mono: "\<forall>k k'. k \<le> k' \<and> k' < length scores \<longrightarrow>
             the (adj ! (perm ! k)) \<le> the (adj ! (perm ! k'))"
    using bh_structure [of scores, folded perm_def] by blast
  have lp: "length perm = length scores" by (simp add: perm_def)
  define fs where "fs = map (\<lambda>i. the (adj ! i)) perm"
  have "sort_key prrPValue (applyBenjaminiHochberg scores)
      = map (\<lambda>i. (scores ! i)\<lparr>fdrPValue := adj ! i\<rparr>) perm"
    unfolding out sort_key_map perm_def by simp
  then have "map fdrPValue (sort_key prrPValue (applyBenjaminiHochberg scores))
      = map (\<lambda>i. adj ! i) perm"
    by simp
  also have "\<dots> = map Some fs"
  proof (rule nth_equalityI)
    show "length (map (\<lambda>i. adj ! i) perm) = length (map Some fs)"
      by (simp add: fs_def)
    fix k assume "k < length (map (\<lambda>i. adj ! i) perm)"
    then have k: "k < length scores" by (simp add: lp)
    with some obtain v where "adj ! (perm ! k) = Some v" by blast
    with k show "map (\<lambda>i. adj ! i) perm ! k = map Some fs ! k"
      by (simp add: fs_def lp)
  qed
  finally have eq: "map fdrPValue (sort_key prrPValue (applyBenjaminiHochberg scores)) = map Some fs" .
  have "sorted fs"
    unfolding sorted_iff_nth_mono
  proof (intro allI impI)
    fix i j assume "i \<le> j" "j < length fs"
    then have "i \<le> j \<and> j < length scores" by (simp add: fs_def lp)
    with mono have "the (adj ! (perm ! i)) \<le> the (adj ! (perm ! j))" by blast
    with \<open>i \<le> j \<and> j < length scores\<close> show "fs ! i \<le> fs ! j"
      by (simp add: fs_def lp)
  qed
  with eq show ?thesis by blast
qed

lemma bh_pairs:
  assumes "s \<in> set (applyBenjaminiHochberg scores)" "s' \<in> set (applyBenjaminiHochberg scores)"
    and "prrPValue s < prrPValue s'"
  shows "\<exists>v v'. fdrPValue s = Some v \<and> fdrPValue s' = Some v' \<and> v \<le> v'"
proof -
  define key where "key = (\<lambda>i. prrPValue (scores ! i))"
  define perm where "perm = sort_key key [0..<length scores]"
  obtain adj where out: "applyBenjaminiHochberg scores
           = map (\<lambda>i. (scores ! i)\<lparr>fdrPValue := adj ! i\<rparr>) [0..<length scores]"
    and some: "\<forall>k < length scores. \<exists>v. adj ! (perm ! k) = Some v"
    and mono: "\<forall>k k'. k \<le> k' \<and> k' < length scores \<longrightarrow>
             the (adj ! (perm ! k)) \<le> the (adj ! (perm ! k'))"
    using bh_structure [of scores, folded key_def, folded perm_def] by blast
  have lp: "length perm = length scores" by (simp add: perm_def)
  have sp: "sorted (map key perm)" by (simp add: perm_def)
  have mem: "\<exists>i. i < length scores \<and> x = (scores ! i)\<lparr>fdrPValue := adj ! i\<rparr>"
    if "x \<in> set (applyBenjaminiHochberg scores)" for x
  proof -
    from that have "x \<in> (\<lambda>i. (scores ! i)\<lparr>fdrPValue := adj ! i\<rparr>) ` {0..<length scores}"
      unfolding out set_map set_upt .
    then obtain i where "i \<in> {0..<length scores}"
      and "x = (scores ! i)\<lparr>fdrPValue := adj ! i\<rparr>"
      by (rule imageE)
    then show ?thesis by (intro exI [of _ i] conjI) simp_all
  qed
  from mem [OF assms(1)] obtain i where i: "i < length scores"
    and s: "s = (scores ! i)\<lparr>fdrPValue := adj ! i\<rparr>"
    by blast
  from mem [OF assms(2)] obtain j where j: "j < length scores"
    and s': "s' = (scores ! j)\<lparr>fdrPValue := adj ! j\<rparr>"
    by blast
  from i have "i \<in> set perm" by (simp add: perm_def)
  then obtain k where k: "k < length perm" "perm ! k = i"
    by (auto simp: in_set_conv_nth)
  from j have "j \<in> set perm" by (simp add: perm_def)
  then obtain k' where k': "k' < length perm" "perm ! k' = j"
    by (auto simp: in_set_conv_nth)
  have lt: "key i < key j" using assms(3) by (simp add: s s' key_def)
  have "k \<le> k'"
  proof (rule ccontr)
    assume "\<not> k \<le> k'"
    then have "k' \<le> k" by simp
    with sp k(1) have "map key perm ! k' \<le> map key perm ! k"
      by (intro sorted_nth_mono) simp_all
    with k k' have "key j \<le> key i" by simp
    with lt show False by simp
  qed
  moreover from k' lp have kl': "k' < length scores" by simp
  ultimately have "the (adj ! (perm ! k)) \<le> the (adj ! (perm ! k'))"
    using mono by blast
  then have le: "the (adj ! i) \<le> the (adj ! j)"
    by (simp only: k(2) k'(2))
  from k lp have kl: "k < length scores" by simp
  from some kl obtain v where "adj ! (perm ! k) = Some v" by blast
  then have v: "adj ! i = Some v" by (simp only: k(2))
  from some kl' obtain v' where "adj ! (perm ! k') = Some v'" by blast
  then have v': "adj ! j = Some v'" by (simp only: k'(2))
  from le v v' show ?thesis by (simp add: s s')
qed

lemma bh_two:
  "applyBenjaminiHochberg [scoreWithP 0.04, scoreWithP 0.01]
     = [(scoreWithP 0.04)\<lparr>fdrPValue := Some 0.04\<rparr>, (scoreWithP 0.01)\<lparr>fdrPValue := Some 0.02\<rparr>]"
  by (simp add: applyBenjaminiHochberg_def Let_def bh_walk.simps upt_rec scoreWithP_def)

text \<open>
  Claim C3. Arrange the scores returned by \<open>applyBenjaminiHochberg\<close> in ascending order
  of their raw p-value \<open>prrPValue\<close> (scores with equal p-values in the order of the batch,
  the order of the stable sort the procedure itself uses): every \<open>fdrPValue\<close> is set,
  and their sequence is non-decreasing. Moreover, of any two returned scores the one
  with the strictly smaller raw p-value has the smaller or equal \<open>fdrPValue\<close>, so the
  sequence is non-decreasing however scores of different p-values are arranged.
\<close>

theorem bh_fdr_monotone:
  "(\<exists>fs. map fdrPValue (sort_key prrPValue (applyBenjaminiHochberg scores)) = map Some fs
       \<and> sorted fs)
   \<and> (\<forall>s \<in> set (applyBenjaminiHochberg scores).
        \<forall>s' \<in> set (applyBenjaminiHochberg scores).
          prrPValue s < prrPValue s' \<longrightarrow>
          (\<exists>v v'. fdrPValue s = Some v \<and> fdrPValue s' = Some v' \<and> v \<le> v'))"
proof (intro conjI ballI impI)
  show "\<exists>fs. map fdrPValue (sort_key prrPValue (applyBenjaminiHochberg scores)) = map Some fs
       \<and> sorted fs"
    by (rule bh_stable_sorted)
next
  fix s s'
  assume "s \<in> set (applyBenjaminiHochberg scores)" "s' \<in> set (applyBenjaminiHochberg scores)"
    and "prrPValue s < prrPValue s'"
  then show "\<exists>v v'. fdrPValue s = Some v \<and> fdrPValue s' = Some v' \<and> v \<le> v'"
    by (rule bh_pairs)
qed

theorem bh_fdr_monotone_witness:
  "\<exists>v v'. fdrPValue (applyBenjaminiHochberg [scoreWithP 0.04, scoreWithP 0.01] ! 1) = Some v
      \<and> fdrPValue (applyBenjaminiHochberg [scoreWithP 0.04, scoreWithP 0.01] ! 0) = Some v'
      \<and> v \<le> v'"
proof -
  let ?out = "applyBenjaminiHochberg [scoreWithP 0.04, scoreWithP 0.01]"
  have m1: "?out ! 1 \<in> set ?out" and m0: "?out ! 0 \<in> set ?out"
    unfolding bh_two by simp_all
  have lt: "prrPValue (?out ! 1) < prrPValue (?out ! 0)"
    unfolding bh_two by (simp add: scoreWithP_def)
  from bh_fdr_monotone [of "[scoreWithP 0.04, scoreWithP 0.01]"]
  have "\<forall>s \<in> set ?out. \<forall>s' \<in> set ?out. prrPValue s < prrPValue s' \<longrightarrow>
          (\<exists>v v'. fdrPValue s = Some v \<and> fdrPValue s' = Some v' \<and> v \<le> v')"
    by (rule conjunct2)
  from this [rule_format, OF m1 m0 lt] show ?thesis .
qed

text \<open>
  Claim C4. \<open>applyBenjaminiHochberg\<close> returns a list of the same length; erasing
  \<open>fdrPValue\<close> on both sides, the output equals the input element by element (same
  order, every other field unchanged); every element of the output has \<open>fdrPValue\<close> set;
  and the empty batch gives the empty list.
\<close>

theorem bh_preserves_batch:
  "length (applyBenjaminiHochberg scores) = length scores
   \<and> map (\<lambda>s. s\<lparr>fdrPValue := None\<rparr>) (applyBenjaminiHochberg scores)
       = map (\<lambda>s. s\<lparr>fdrPValue := None\<rparr>) scores
   \<and> list_all (\<lambda>s. fdrPValue s \<noteq> None) (applyBenjaminiHochberg scores)
   \<and> applyBenjaminiHochberg [] = []"
proof -
  define perm where "perm = sort_key (\<lambda>i. prrPValue (scores ! i)) [0..<length scores]"
  obtain adj where out: "applyBenjaminiHochberg scores
           = map (\<lambda>i. (scores ! i)\<lparr>fdrPValue := adj ! i\<rparr>) [0..<length scores]"
    and some: "\<forall>k < length scores. \<exists>v. adj ! (perm ! k) = Some v"
    using bh_structure [of scores, folded perm_def] by blast
  have lp: "length perm = length scores" by (simp add: perm_def)
  have A: "length (applyBenjaminiHochberg scores) = length scores"
    unfolding out by simp
  have "map (\<lambda>s. s\<lparr>fdrPValue := None\<rparr>) (applyBenjaminiHochberg scores)
      = map (\<lambda>s. s\<lparr>fdrPValue := None\<rparr>) (map (\<lambda>i. scores ! i) [0..<length scores])"
    unfolding out by simp
  then have B: "map (\<lambda>s. s\<lparr>fdrPValue := None\<rparr>) (applyBenjaminiHochberg scores)
      = map (\<lambda>s. s\<lparr>fdrPValue := None\<rparr>) scores"
    by (simp only: map_nth)
  have pop: "\<exists>v. adj ! i = Some v" if "i < length scores" for i
  proof -
    from that have "i \<in> set perm" by (simp add: perm_def)
    then obtain k where "k < length perm" "perm ! k = i"
      by (auto simp: in_set_conv_nth)
    with some lp show ?thesis by auto
  qed
  have C: "list_all (\<lambda>s. fdrPValue s \<noteq> None) (applyBenjaminiHochberg scores)"
    unfolding out list_all_iff using pop by auto
  have D: "applyBenjaminiHochberg [] = []"
    by (simp add: applyBenjaminiHochberg_def)
  from A B C D show ?thesis by blast
qed

lemma bh_single:
  "applyBenjaminiHochberg [s] = [s\<lparr>fdrPValue := Some (min (prrPValue s) 1)\<rparr>]"
proof -
  have w0: "bh_walk ix m 0 c adj = adj" for ix m c adj
    by (subst bh_walk.simps) simp
  have w1: "bh_walk [\<lparr>idx = 0, p = prrPValue s\<rparr>] (Suc 0) (Suc 0) 1 [None]
          = [Some (min (prrPValue s) 1)]"
    by (subst bh_walk.simps) (simp add: w0 Let_def min.commute)
  show ?thesis
    by (simp add: applyBenjaminiHochberg_def Let_def w1)
qed

text \<open>
  Claim C7. On a batch of exactly one score whose raw p-value is a p-value, that is at
  most 1 (as every value of \<open>chi2PValue1df\<close> is), the output is that score with
  \<open>fdrPValue\<close> set to its \<open>prrPValue\<close>: with \<open>m = 1\<close> and rank 1 the adjusted value is
  the raw one, and every other field is unchanged. (The cap \<open>min(., 1)\<close> of the
  procedure does not bite below 1.)
\<close>

theorem bh_single_score:
  assumes "prrPValue s \<le> 1"
  shows "applyBenjaminiHochberg [s] = [s\<lparr>fdrPValue := Some (prrPValue s)\<rparr>]
       \<and> map fdrPValue (applyBenjaminiHochberg [s]) = [Some (prrPValue s)]"
  using assms by (simp add: bh_single min_def)

theorem bh_single_score_witness:
  "map fdrPValue (applyBenjaminiHochberg [scoreWithP (1 / 20)]) = [Some (1 / 20)]"
  using bh_single_score [of "scoreWithP (1 / 20)"] by (simp add: scoreWithP_def)

section \<open>Verification: time-series statistics\<close>

lemma take_drop_nth_upt:
  "k + j \<le> length xs \<Longrightarrow> take j (drop k xs) = map (\<lambda>i. xs ! i) [k..<k + j]"
proof -
  assume le: "k + j \<le> length xs"
  have "take j (drop k xs) = take j (drop k (map (\<lambda>i. xs ! i) [0..<length xs]))"
    by (simp add: map_nth)
  also have "\<dots> = map (\<lambda>i. xs ! i) (take j (drop k [0..<length xs]))"
    by (simp add: take_map drop_map)
  also have "take j (drop k [0..<length xs]) = [k..<k + j]"
    using le by (simp add: drop_upt take_upt)
  finally show ?thesis .
qed

lemma js_slice_window:
  assumes "0 \<le> start" "0 \<le> stop" "stop \<le> int (length xs)"
  shows "js_slice xs start stop = map (\<lambda>i. xs ! i) [nat start..<nat stop]"
proof (cases "start < stop")
  case True
  with assms have k: "min start (int (length xs)) = start" by simp
  from assms have f: "min stop (int (length xs)) = stop" by simp
  from True assms have le: "nat start + nat (stop - start) \<le> length xs" by linarith
  from True assms have e: "nat start + nat (stop - start) = nat stop" by linarith
  show ?thesis
    using assms take_drop_nth_upt [OF le]
    by (simp add: js_slice_def Let_def k f e)
next
  case False
  with assms have "min stop (int (length xs)) - min start (int (length xs)) \<le> 0" by simp
  with False assms show ?thesis
    by (simp add: js_slice_def Let_def)
qed

text \<open>
  Claim C9. On a series of fewer than 10 points \<open>detectChangepoints\<close> returns the empty
  list, whatever the threshold.
\<close>

theorem detectChangepoints_short: "length data < 10 \<Longrightarrow> detectChangepoints data threshold = []"
  by (simp add: detectChangepoints_def)

theorem detectChangepoints_short_witness: "detectChangepoints [1, 2, 3] None = []"
  using detectChangepoints_short [of "[1, 2, 3]" None] by simp

text \<open>The loop does flag points: a jump at the last index of a flat series.\<close>

lemma detectChangepoints_example:
  "detectChangepoints [0, 0, 0, 0, 0, 0, 0, 0, 0, 10] (Some 2) = [9]"
  by (simp add: detectChangepoints_def Let_def cusum_loop.simps)

declare cusum_loop.simps [simp del]

lemma cusum_loop_invariant:
  assumes "sorted_wrt (<) cps" "\<forall>k \<in> set cps. 1 \<le> k \<and> k < i" "1 \<le> i"
  shows "sorted_wrt (<) (cusum_loop data mean std h i sPos sNeg cps)
       \<and> (\<forall>k \<in> set (cusum_loop data mean std h i sPos sNeg cps). 1 \<le> k \<and> k < max i (length data))"
  using assms
proof (induction data mean std h i sPos sNeg cps rule: cusum_loop.induct)
  case (1 data mean std h i sPos sNeg changepoints)
  show ?case
  proof (cases "i < length data")
    case False
    with "1.prems" show ?thesis
      by (subst (1 2) cusum_loop.simps) (auto simp: max_def)
  next
    case True
    define sPos' where "sPos' = max 0 (sPos + (data ! i - mean) - std * 0.5)"
    define sNeg' where "sNeg' = min 0 (sNeg + (data ! i - mean) + std * 0.5)"
    have mx: "max (i + 1) (length data) = max i (length data)"
      using True by simp
    show ?thesis
    proof (cases "sPos' > h \<or> sNeg' < - h")
      case hit: True
      have s: "sorted_wrt (<) (changepoints @ [i])"
        using "1.prems" by (auto simp: sorted_wrt_append)
      have b: "\<forall>k \<in> set (changepoints @ [i]). 1 \<le> k \<and> k < i + 1"
        using "1.prems" by auto
      have eq: "cusum_loop data mean std h i sPos sNeg changepoints
              = cusum_loop data mean std h (i + 1) 0 0 (changepoints @ [i])"
        using True hit
        by (subst cusum_loop.simps) (simp add: Let_def sPos'_def sNeg'_def)
      from "1.IH"(1) [OF True refl refl refl, folded sPos'_def sNeg'_def, OF hit s b]
      show ?thesis unfolding eq mx by simp
    next
      case miss: False
      have b: "\<forall>k \<in> set changepoints. 1 \<le> k \<and> k < i + 1"
        using "1.prems" by auto
      have eq: "cusum_loop data mean std h i sPos sNeg changepoints
              = cusum_loop data mean std h (i + 1) sPos' sNeg' changepoints"
        using True miss
        by (subst cusum_loop.simps) (simp add: Let_def sPos'_def sNeg'_def)
      from "1.IH"(2) [OF True refl refl refl, folded sPos'_def sNeg'_def, OF miss "1.prems"(1) b]
      show ?thesis unfolding eq mx by simp
    qed
  qed
qed

text \<open>
  Claim C10. For every series and threshold the list that \<open>detectChangepoints\<close> returns
  is strictly increasing, and each of its indices is at least 1 and at most
  \<open>data.length - 1\<close>: index 0 never appears and no index appears twice.
\<close>

theorem detectChangepoints_increasing_in_range:
  "sorted_wrt (<) (detectChangepoints data threshold)
   \<and> list_all (\<lambda>k. 1 \<le> k \<and> k \<le> length data - 1) (detectChangepoints data threshold)"
proof (cases "length data < 10")
  case True
  then show ?thesis by (simp add: detectChangepoints_def)
next
  case False
  have "\<exists>mean std h. detectChangepoints data threshold = cusum_loop data mean std h 1 0 0 []"
    unfolding detectChangepoints_def Let_def using False
    by (simp only: if_False) blast
  then obtain mean std h
    where eq: "detectChangepoints data threshold = cusum_loop data mean std h 1 0 0 []"
    by blast
  have "sorted_wrt (<) (cusum_loop data mean std h 1 0 0 [])
       \<and> (\<forall>k \<in> set (cusum_loop data mean std h 1 0 0 []). 1 \<le> k \<and> k < max 1 (length data))"
    by (rule cusum_loop_invariant) simp_all
  with False show ?thesis
    unfolding eq by (auto simp: list_all_iff max_def)
qed

section \<open>Verification: binary64 rounding\<close>

lemma rne_int [simp]: "rne (of_int k) = k"
  by (simp add: rne_def)

lemma rne_numeral [simp]: "rne (numeral m) = numeral m"
  using rne_int [of "numeral m"] by simp

lemma rne_mono: "x \<le> y \<Longrightarrow> rne x \<le> rne y"
proof -
  assume xy: "x \<le> y"
  then have fl: "\<lfloor>x\<rfloor> \<le> \<lfloor>y\<rfloor>" by (rule floor_mono)
  have ux: "rne x \<le> \<lfloor>x\<rfloor> + 1" by (simp add: rne_def Let_def)
  have ly: "\<lfloor>y\<rfloor> \<le> rne y" by (simp add: rne_def Let_def)
  show ?thesis
  proof (cases "\<lfloor>x\<rfloor> = \<lfloor>y\<rfloor>")
    case True
    with xy show ?thesis by (auto simp: rne_def Let_def)
  next
    case False
    with fl have "\<lfloor>x\<rfloor> + 1 \<le> \<lfloor>y\<rfloor>" by simp
    with ux ly show ?thesis by linarith
  qed
qed

lemma rne_neg: "rne (- x) = - rne x"
proof (cases "x \<in> \<int>")
  case True
  then obtain k where "x = of_int k" by (auto elim: Ints_cases)
  then show ?thesis by (simp add: rne_def flip: of_int_minus)
next
  case False
  then have ne: "x \<noteq> of_int \<lfloor>x\<rfloor>"
    by (metis Ints_of_int)
  then have c: "\<lfloor>- x\<rfloor> = - \<lfloor>x\<rfloor> - 1"
    by (simp add: floor_minus ceiling_altdef)
  have r: "x - of_int \<lfloor>x\<rfloor> \<noteq> 0" using ne by simp
  show ?thesis
    unfolding rne_def Let_def c using r by (auto simp: algebra_simps)
qed

lemma pow2_pos [simp]: "0 < pow2 k"
  by (simp add: pow2_def)

lemma pow2_nz [simp]: "pow2 k \<noteq> 0"
  by (simp add: pow2_def)

lemma pow2_add: "pow2 (i + j) = pow2 i * pow2 j"
  by (simp add: pow2_def powr_add)

lemma pow2_nat: "pow2 (int m) = 2 ^ m"
  by (simp add: pow2_def powr_realpow)

lemma pow2_mono: "i \<le> j \<Longrightarrow> pow2 i \<le> pow2 j"
  by (simp add: pow2_def)

lemma pow2_less: "i < j \<Longrightarrow> pow2 i < pow2 j"
  by (simp add: pow2_def)

lemma expo_ge: "- 1022 \<le> expo x"
  by (simp add: expo_def)

lemma expo_neg [simp]: "expo (- x) = expo x"
  by (simp add: expo_def)

lemma ulp_neg [simp]: "ulp (- x) = ulp x"
  by (simp add: ulp_def)

lemma ulp_pos [simp]: "0 < ulp x"
  by (simp add: ulp_def)

lemma ulp_nz [simp]: "ulp x \<noteq> 0"
  by (simp add: ulp_def)

lemma pow2_less_iff: "pow2 i < pow2 j \<longleftrightarrow> i < j"
  by (simp add: pow2_def)

lemma pow2_le_iff: "pow2 i \<le> pow2 j \<longleftrightarrow> i \<le> j"
  by (simp add: pow2_def)

lemma expo_upper: "x \<noteq> 0 \<Longrightarrow> \<bar>x\<bar> < pow2 (expo x + 1)"
proof -
  assume nz: "x \<noteq> 0"
  then have pos: "0 < \<bar>x\<bar>" by simp
  have "log 2 \<bar>x\<bar> < of_int (\<lfloor>log 2 \<bar>x\<bar>\<rfloor> + 1)" by linarith
  also have "\<dots> \<le> of_int (expo x + 1)" by (simp add: expo_def)
  finally have "2 powr (log 2 \<bar>x\<bar>) < 2 powr (of_int (expo x + 1))" by simp
  with pos show ?thesis by (simp add: pow2_def)
qed

lemma expo_lower: "x \<noteq> 0 \<Longrightarrow> - 1022 < expo x \<Longrightarrow> pow2 (expo x) \<le> \<bar>x\<bar>"
proof -
  assume nz: "x \<noteq> 0" and "- 1022 < expo x"
  then have e: "expo x = \<lfloor>log 2 \<bar>x\<bar>\<rfloor>" by (simp add: expo_def max_def split: if_splits)
  from nz have pos: "0 < \<bar>x\<bar>" by simp
  have "of_int (expo x) \<le> log 2 \<bar>x\<bar>" unfolding e by simp
  then have "2 powr (of_int (expo x)) \<le> 2 powr (log 2 \<bar>x\<bar>)" by simp
  with pos show ?thesis by (simp add: pow2_def)
qed

lemma expo_eq:
  assumes "pow2 e \<le> \<bar>x\<bar>" "\<bar>x\<bar> < pow2 (e + 1)" "- 1022 \<le> e"
  shows "expo x = e"
proof -
  from assms(1) have pos: "0 < \<bar>x\<bar>" using pow2_pos [of e] by linarith
  have "\<lfloor>log 2 \<bar>x\<bar>\<rfloor> = e"
    using assms(1,2) pos by (subst floor_log_eq_powr_iff) (simp_all add: pow2_def)
  with assms(3) show ?thesis by (simp add: expo_def)
qed

lemma expo_subnormal:
  assumes "x \<noteq> 0" "\<bar>x\<bar> < pow2 (- 1022)"
  shows "expo x = - 1022"
proof (rule ccontr)
  assume "expo x \<noteq> - 1022"
  with expo_ge [of x] have g: "- 1022 < expo x" by simp
  from expo_lower [OF assms(1) g] have "pow2 (expo x) \<le> \<bar>x\<bar>" .
  moreover from g have "pow2 (- 1022) \<le> pow2 (expo x)" by (intro pow2_mono) simp
  ultimately show False using assms(2) by linarith
qed

lemma expo_mono:
  assumes "x \<noteq> 0" "\<bar>x\<bar> \<le> \<bar>y\<bar>"
  shows "expo x \<le> expo y"
proof -
  from assms have "0 < \<bar>x\<bar>" by simp
  with assms(2) have "log 2 \<bar>x\<bar> \<le> log 2 \<bar>y\<bar>" by (intro log_mono) simp_all
  then have "\<lfloor>log 2 \<bar>x\<bar>\<rfloor> \<le> \<lfloor>log 2 \<bar>y\<bar>\<rfloor>" by (rule floor_mono)
  then show ?thesis by (simp add: expo_def)
qed

lemma round64_0 [simp]: "round64 0 = 0"
  by (simp add: round64_def)

lemma round64_neg: "round64 (- x) = - round64 x"
  by (simp add: round64_def rne_neg)

lemma rne_nonneg: "0 \<le> x \<Longrightarrow> 0 \<le> rne x"
  using rne_mono [of 0 x] rne_int [of 0] by simp

lemma round64_nonneg: "0 \<le> x \<Longrightarrow> 0 \<le> round64 x"
proof -
  assume "0 \<le> x"
  then have "0 \<le> x / ulp x" by (intro divide_nonneg_pos) simp_all
  then have "0 \<le> rne (x / ulp x)" by (rule rne_nonneg)
  then have "0 \<le> (of_int (rne (x / ulp x)) :: real) * ulp x"
    by (intro mult_nonneg_nonneg) (simp_all add: less_imp_le)
  then show ?thesis by (simp add: round64_def)
qed

lemma rne_le_pow: "x \<le> 2 ^ m \<Longrightarrow> rne x \<le> 2 ^ m"
proof -
  assume "x \<le> 2 ^ m"
  then have "x \<le> of_int (2 ^ m)" by simp
  from rne_mono [OF this] show ?thesis by (simp only: rne_int)
qed

lemma rne_ge_pow: "2 ^ m \<le> x \<Longrightarrow> 2 ^ m \<le> rne x"
proof -
  assume "2 ^ m \<le> x"
  then have "of_int (2 ^ m) \<le> x" by simp
  from rne_mono [OF this] show ?thesis by (simp only: rne_int)
qed

lemma rne_pow [simp]: "rne (2 ^ m) = 2 ^ m"
  using rne_int [of "2 ^ m"] by simp

lemma pow2_expo_succ: "pow2 (e + 1) = 2 ^ 53 * pow2 (e - 52)"
proof -
  have "e + 1 = int 53 + (e - 52)" by simp
  then have "pow2 (e + 1) = pow2 (int 53) * pow2 (e - 52)" by (simp only: pow2_add)
  then show ?thesis by (simp only: pow2_nat)
qed

lemma pow2_expo: "pow2 e = 2 ^ 52 * pow2 (e - 52)"
proof -
  have "pow2 (int 52 + (e - 52)) = pow2 (int 52) * pow2 (e - 52)" by (rule pow2_add)
  moreover have "int 52 + (e - 52) = e" by simp
  ultimately show ?thesis by (simp only: pow2_nat)
qed

lemma round64_upper:
  assumes "0 < x"
  shows "round64 x \<le> pow2 (expo x + 1)"
proof -
  from assms have nz: "x \<noteq> 0" by simp
  have "x < pow2 (expo x + 1)" using expo_upper [OF nz] assms by simp
  then have "x < 2 ^ 53 * ulp x" by (simp only: pow2_expo_succ ulp_def)
  then have "x / ulp x \<le> 2 ^ 53" by (simp add: divide_simps)
  then have "rne (x / ulp x) \<le> 2 ^ 53" by (rule rne_le_pow)
  then have "(of_int (rne (x / ulp x)) :: real) \<le> of_int (2 ^ 53)" by (simp only: of_int_le_iff)
  then have "of_int (rne (x / ulp x)) * ulp x \<le> 2 ^ 53 * ulp x"
    by (simp add: mult_right_mono)
  then show ?thesis
    using nz by (simp only: round64_def if_False pow2_expo_succ ulp_def)
qed

lemma round64_lower:
  assumes "0 < x" "- 1022 < expo x"
  shows "pow2 (expo x) \<le> round64 x"
proof -
  from assms have nz: "x \<noteq> 0" by simp
  have "pow2 (expo x) \<le> x" using expo_lower [OF nz assms(2)] assms(1) by simp
  then have "2 ^ 52 * ulp x \<le> x" by (simp only: pow2_expo [of "expo x"] ulp_def)
  then have "2 ^ 52 \<le> x / ulp x" by (simp add: divide_simps)
  then have "2 ^ 52 \<le> rne (x / ulp x)" by (rule rne_ge_pow)
  then have "(of_int (2 ^ 52) :: real) \<le> of_int (rne (x / ulp x))" by (simp only: of_int_le_iff)
  then have "2 ^ 52 * ulp x \<le> of_int (rne (x / ulp x)) * ulp x"
    by (simp add: mult_right_mono)
  then show ?thesis
    using nz by (simp only: round64_def if_False pow2_expo [of "expo x"] ulp_def)
qed

lemma round64_mono_pos:
  assumes "0 < x" "x \<le> y"
  shows "round64 x \<le> round64 y"
proof -
  from assms have nz: "x \<noteq> 0" "y \<noteq> 0" and ypos: "0 < y" by simp_all
  from assms have "expo x \<le> expo y" by (intro expo_mono) simp_all
  then consider "expo x = expo y" | "expo x < expo y" by linarith
  then show ?thesis
  proof cases
    case 1
    then have u: "ulp x = ulp y" by (simp add: ulp_def)
    from assms(2) have "x / ulp y \<le> y / ulp y" by (simp add: divide_right_mono less_imp_le)
    from rne_mono [OF this] have "(of_int (rne (x / ulp y)) :: real) \<le> of_int (rne (y / ulp y))"
      by (simp only: of_int_le_iff)
    then show ?thesis using nz by (simp add: round64_def u)
  next
    case 2
    with expo_ge [of x] have g: "- 1022 < expo y" by linarith
    have "round64 x \<le> pow2 (expo x + 1)" by (rule round64_upper [OF assms(1)])
    also have "\<dots> \<le> pow2 (expo y)" using 2 by (intro pow2_mono) simp
    also have "\<dots> \<le> round64 y" by (rule round64_lower [OF ypos g])
    finally show ?thesis .
  qed
qed

lemma round64_mono:
  assumes "x \<le> y"
  shows "round64 x \<le> round64 y"
proof -
  consider "0 < x" | "x \<le> 0" "0 \<le> y" | "y < 0" using assms by linarith
  then show ?thesis
  proof cases
    case 1
    then show ?thesis using assms by (rule round64_mono_pos)
  next
    case 2
    from 2(1) have "0 \<le> round64 (- x)" by (intro round64_nonneg) simp
    then have "round64 x \<le> 0" by (simp add: round64_neg)
    also have "0 \<le> round64 y" using 2(2) by (rule round64_nonneg)
    finally show ?thesis .
  next
    case 3
    with assms have "0 < - y" "- y \<le> - x" by simp_all
    then have "round64 (- y) \<le> round64 (- x)" by (rule round64_mono_pos)
    then show ?thesis by (simp add: round64_neg)
  qed
qed

lemma round64_pow2:
  assumes "- 1074 \<le> k"
  shows "round64 (pow2 k) = pow2 k"
proof (cases "- 1022 \<le> k")
  case True
  have e: "expo (pow2 k) = k"
    by (rule expo_eq) (simp_all add: True pow2_less abs_of_pos)
  have "pow2 k / pow2 (k - 52) = 2 ^ 52"
    by (simp add: pow2_expo [of k])
  then have "rne (pow2 k / ulp (pow2 k)) = 2 ^ 52"
    by (simp add: ulp_def e)
  then have "round64 (pow2 k) = 2 ^ 52 * pow2 (k - 52)"
    using pow2_pos [of k] by (simp add: round64_def ulp_def e)
  then show ?thesis by (simp only: pow2_expo [of k])
next
  case False
  then have lt: "pow2 k < pow2 (- 1022)" by (intro pow2_less) simp
  have e: "expo (pow2 k) = - 1022"
    by (rule expo_subnormal) (use lt in \<open>simp_all add: abs_of_pos\<close>)
  have k: "k = int (nat (k + 1074)) + (- 1074)" using assms by simp
  have "pow2 k = pow2 (int (nat (k + 1074))) * pow2 (- 1074)"
    by (subst k) (simp only: pow2_add)
  then have pk: "pow2 k = 2 ^ nat (k + 1074) * pow2 (- 1074)"
    by (simp only: pow2_nat)
  then have "pow2 k / pow2 (- 1074) = 2 ^ nat (k + 1074)" by simp
  then have "rne (pow2 k / ulp (pow2 k)) = 2 ^ nat (k + 1074)"
    by (simp add: ulp_def e)
  then have "round64 (pow2 k) = 2 ^ nat (k + 1074) * pow2 (- 1074)"
    using pow2_pos [of k] by (simp add: round64_def ulp_def e)
  then show ?thesis by (simp only: pk)
qed

lemma round64_exact: "x / ulp x \<in> \<int> \<Longrightarrow> round64 x = x"
proof -
  assume "x / ulp x \<in> \<int>"
  then obtain k where k: "x / ulp x = of_int k" by (auto elim: Ints_cases)
  then have "of_int (rne (x / ulp x)) * ulp x = x / ulp x * ulp x" by simp
  then show ?thesis by (simp add: round64_def)
qed

lemma pow2_0 [simp]: "pow2 0 = 1"
  by (simp add: pow2_def)

lemma expo_int_range:
  assumes "1 \<le> x" "x < 2 ^ 53"
  shows "0 \<le> expo x \<and> expo x \<le> 52"
proof -
  from assms have nz: "x \<noteq> 0" and ax: "\<bar>x\<bar> = x" by simp_all
  have "expo 1 = 0" by (rule expo_eq) (simp_all add: pow2_def)
  moreover have "expo 1 \<le> expo x" using assms by (intro expo_mono) simp_all
  ultimately have lo: "0 \<le> expo x" by simp
  then have g: "- 1022 < expo x" by simp
  from expo_lower [OF nz g] ax assms(2) have "pow2 (expo x) < 2 ^ 53" by simp
  then have "pow2 (expo x) < pow2 (int 53)" by (simp only: pow2_nat)
  then have "expo x < int 53"
    by (simp only: pow2_less_iff)
  with lo show ?thesis by simp
qed

lemma round64_nat:
  assumes "x \<in> \<nat>" "x \<le> 2 ^ 53"
  shows "round64 x = x"
proof -
  consider "x = 0" | "x = 2 ^ 53" | "1 \<le> x" "x < 2 ^ 53"
    using assms by (auto elim!: Nats_cases) linarith
  then show ?thesis
  proof cases
    case 1
    then show ?thesis by simp
  next
    case 2
    then have "x = pow2 (int 53)" by (simp only: pow2_nat)
    then show ?thesis using round64_pow2 [of "int 53"] by simp
  next
    case 3
    from expo_int_range [OF 3] have e: "0 \<le> expo x" "expo x \<le> 52" by simp_all
    define m where "m = nat (52 - expo x)"
    have "pow2 (int m + (expo x - 52)) = pow2 (int m) * pow2 (expo x - 52)" by (rule pow2_add)
    moreover have "int m + (expo x - 52) = 0" using e by (simp add: m_def)
    ultimately have "2 ^ m * ulp x = 1" by (simp add: pow2_nat ulp_def)
    then have "x / ulp x = x * 2 ^ m"
      by (simp add: divide_simps mult.commute)
    moreover from assms(1) have "x * 2 ^ m \<in> \<int>"
      by (auto elim!: Nats_cases)
    ultimately show ?thesis by (intro round64_exact) simp
  qed
qed

lemma round64_le_pow2:
  assumes "x \<le> pow2 k" "- 1074 \<le> k"
  shows "round64 x \<le> pow2 k"
  using round64_mono [OF assms(1)] round64_pow2 [OF assms(2)] by simp

lemma round64_ge_pow2:
  assumes "pow2 k \<le> x" "- 1074 \<le> k"
  shows "pow2 k \<le> round64 x"
  using round64_mono [OF assms(1)] round64_pow2 [OF assms(2)] by simp

lemma round64_abs_le_pow2:
  assumes "\<bar>x\<bar> \<le> pow2 k" "- 1074 \<le> k"
  shows "\<bar>round64 x\<bar> \<le> pow2 k"
proof -
  from assms(1) have "x \<le> pow2 k" "- x \<le> pow2 k" by simp_all
  then have "round64 x \<le> pow2 k" "round64 (- x) \<le> pow2 k"
    using assms(2) by (simp_all add: round64_le_pow2)
  then show ?thesis by (simp add: round64_neg abs_le_iff)
qed

lemma round64_eval:
  assumes "pow2 e \<le> \<bar>x\<bar>" "\<bar>x\<bar> < pow2 (e + 1)" "- 1022 \<le> e"
  shows "round64 x = of_int (rne (x / pow2 (e - 52))) * pow2 (e - 52)"
proof -
  from assms(1) have "0 < \<bar>x\<bar>" using pow2_pos [of e] by linarith
  then have "x \<noteq> 0" by simp
  then show ?thesis by (simp add: round64_def ulp_def expo_eq [OF assms])
qed

lemma pow2_numeral: "pow2 (numeral m) = 2 ^ numeral m"
  using pow2_nat [of "numeral m"] by simp

lemma pow2_neg_numeral: "pow2 (- numeral m) = 1 / 2 ^ numeral m"
  by (simp add: pow2_def powr_neg_numeral)

lemma pow2_1: "pow2 1 = 2"
  by (simp add: pow2_def)

lemma pow2_neg_1: "pow2 (- 1) = 1 / 2"
  by (simp add: pow2_def powr_minus_divide)

lemmas pow2_simps = pow2_numeral pow2_neg_numeral pow2_1 pow2_neg_1 pow2_0

lemma round64_value:
  assumes "pow2 e \<le> \<bar>x\<bar>" "\<bar>x\<bar> < pow2 (e + 1)" "- 1022 \<le> e"
    and "rne (x / pow2 (e - 52)) = k"
  shows "round64 x = of_int k * pow2 (e - 52)"
  using round64_eval [OF assms(1-3)] assms(4) by simp

lemma f64_value:
  assumes "pow2 e \<le> \<bar>x\<bar>" "\<bar>x\<bar> < pow2 (e + 1)" "- 1022 \<le> e"
    and "rne (x / pow2 (e - 52)) = k" "of_int k * pow2 (e - 52) = r" "\<bar>r\<bar> < 2 ^ 1024"
  shows "f64 x = Some r"
  using round64_value [OF assms(1-4)] assms(5,6) by (simp add: f64_def)

lemma f64_0 [simp]: "f64 0 = Some 0"
  by (simp add: f64_def)

lemmas f64_ev = pow2_simps rne_def Let_def tenth_def power_divide

lemma pow2_lt_huge: "k < 1024 \<Longrightarrow> pow2 k < 2 ^ 1024"
proof -
  assume "k < 1024"
  then have "pow2 k < pow2 (int 1024)" by (simp add: pow2_less_iff)
  then show ?thesis by (simp only: pow2_nat)
qed

lemma f64_Some:
  assumes "\<bar>x\<bar> \<le> pow2 k" "- 1074 \<le> k" "k < 1024"
  shows "f64 x = Some (round64 x)"
proof -
  have "\<bar>round64 x\<bar> \<le> pow2 k" by (rule round64_abs_le_pow2 [OF assms(1,2)])
  also have "pow2 k < 2 ^ 1024" by (rule pow2_lt_huge [OF assms(3)])
  finally show ?thesis by (simp add: f64_def)
qed

lemma f64_nat:
  assumes "x \<in> \<nat>" "x \<le> 2 ^ 53"
  shows "f64 x = Some x"
proof -
  from assms(1) have "0 \<le> x" by (auto elim!: Nats_cases)
  with assms(2) have "\<bar>x\<bar> \<le> 2 ^ 53" by simp
  then have "\<bar>x\<bar> \<le> pow2 (int 53)" by (simp only: pow2_nat)
  then have "f64 x = Some (round64 x)" by (rule f64_Some) simp_all
  then show ?thesis by (simp add: round64_nat [OF assms])
qed


lemma add64_nat:
  assumes "x \<in> \<nat>" "y \<in> \<nat>" "x + y \<le> 2 ^ 53"
  shows "add64 x y = Some (x + y)"
  unfolding add64_def using assms by (intro f64_nat Nats_add)

lemma f64_half: "f64 (1 / 2) = Some (1 / 2)"
  by (rule f64_value [where e = "- 1" and k = "2 ^ 52"]) (simp_all add: f64_ev)

lemma f64_abs:
  assumes "\<bar>x\<bar> \<le> pow2 k" "- 1074 \<le> k" "k < 1024"
  shows "\<exists>r. f64 x = Some r \<and> \<bar>r\<bar> \<le> pow2 k"
  using f64_Some [OF assms] round64_abs_le_pow2 [OF assms(1,2)] by simp

lemma f64_inrange:
  assumes "inrange i j x" "- 1074 \<le> i" "j < 1024"
  shows "\<exists>r. f64 x = Some r \<and> inrange i j r"
proof -
  from assms(1) have lo: "pow2 i \<le> x" and hi: "x \<le> pow2 j" by (simp_all add: inrange_def)
  from lo hi have ij: "i \<le> j" using pow2_le_iff [of i j] by linarith
  from lo have "0 < x" using pow2_pos [of i] by linarith
  with hi have "\<bar>x\<bar> \<le> pow2 j" by simp
  then have s: "f64 x = Some (round64 x)"
    using assms(2) ij assms(3) by (intro f64_Some) simp_all
  have "pow2 i \<le> round64 x" using lo assms(2) by (rule round64_ge_pow2)
  moreover have "round64 x \<le> pow2 j" using hi assms(2) ij by (intro round64_le_pow2) simp_all
  ultimately show ?thesis using s by (simp add: inrange_def)
qed

lemma inrange_pos: "inrange i j x \<Longrightarrow> 0 < x"
  unfolding inrange_def using pow2_pos [of i] by linarith

lemma inrange_abs: "inrange i j x \<Longrightarrow> \<bar>x\<bar> \<le> pow2 j"
  unfolding inrange_def using pow2_pos [of i] by linarith

lemma inrange_nat:
  assumes "x \<in> \<nat>" "x \<noteq> 0" "x \<le> 2 ^ 53"
  shows "inrange 0 53 x"
proof -
  from assms(1,2) have "1 \<le> x" by (auto elim!: Nats_cases)
  moreover from assms(3) have "x \<le> pow2 (int 53)" by (simp only: pow2_nat)
  ultimately show ?thesis by (simp add: inrange_def)
qed

lemma mul64_inrange:
  assumes "inrange i j x" "inrange i' j' y" "- 1074 \<le> i + i'" "j + j' < 1024"
  shows "\<exists>r. mul64 x y = Some r \<and> inrange (i + i') (j + j') r"
proof -
  from assms(1,2) have "0 < x" "0 < y" by (auto dest: inrange_pos)
  with assms(1,2) have "inrange (i + i') (j + j') (x * y)"
    by (simp add: inrange_def pow2_add mult_mono less_imp_le)
  from f64_inrange [OF this assms(3,4)] show ?thesis by (simp add: mul64_def)
qed

lemma div64_inrange:
  assumes "inrange i j x" "inrange i' j' y" "- 1074 \<le> i - j'" "j - i' < 1024"
  shows "\<exists>r. div64 x y = Some r \<and> inrange (i - j') (j - i') r"
proof -
  from assms(1,2) have pos: "0 < x" "0 < y" by (auto dest: inrange_pos)
  have a: "pow2 (i - j') * pow2 j' = pow2 i" by (simp flip: pow2_add)
  have b: "pow2 (j - i') * pow2 i' = pow2 j" by (simp flip: pow2_add)
  have "pow2 (i - j') * y \<le> pow2 (i - j') * pow2 j'"
    using assms(2) by (simp add: inrange_def)
  also have "\<dots> \<le> x" using assms(1) by (simp add: a inrange_def)
  finally have lo: "pow2 (i - j') \<le> x / y" using pos by (simp add: pos_le_divide_eq)
  have "x \<le> pow2 (j - i') * pow2 i'" using assms(1) by (simp add: b inrange_def)
  also have "\<dots> \<le> pow2 (j - i') * y" using assms(2) by (simp add: inrange_def)
  finally have hi: "x / y \<le> pow2 (j - i')" using pos by (simp add: pos_divide_le_eq)
  from lo hi have "inrange (i - j') (j - i') (x / y)" by (simp add: inrange_def)
  from f64_inrange [OF this assms(3,4)] pos show ?thesis by (simp add: div64_def)
qed

lemma add64_inrange:
  assumes "inrange i j x" "0 \<le> y" "y \<le> pow2 j" "- 1074 \<le> i" "j + 1 < 1024"
  shows "\<exists>r. add64 x y = Some r \<and> inrange i (j + 1) r"
proof -
  have "pow2 (j + 1) = 2 * pow2 j" by (simp add: pow2_add pow2_1)
  with assms(1,2,3) have "inrange i (j + 1) (x + y)" by (simp add: inrange_def)
  from f64_inrange [OF this assms(4,5)] show ?thesis by (simp add: add64_def)
qed

lemma add64_abs:
  assumes "\<bar>x\<bar> \<le> pow2 i" "\<bar>y\<bar> \<le> pow2 i" "- 1075 \<le> i" "i + 1 < 1024"
  shows "\<exists>r. add64 x y = Some r \<and> \<bar>r\<bar> \<le> pow2 (i + 1)"
proof -
  have "pow2 (i + 1) = 2 * pow2 i" by (simp add: pow2_add pow2_1)
  with assms(1,2) have "\<bar>x + y\<bar> \<le> pow2 (i + 1)" by linarith
  then show ?thesis unfolding add64_def using assms(3,4) by (intro f64_abs) simp_all
qed

lemma sub64_abs:
  assumes "\<bar>x\<bar> \<le> pow2 i" "\<bar>y\<bar> \<le> pow2 i" "- 1075 \<le> i" "i + 1 < 1024"
  shows "\<exists>r. sub64 x y = Some r \<and> \<bar>r\<bar> \<le> pow2 (i + 1)"
proof -
  have "pow2 (i + 1) = 2 * pow2 i" by (simp add: pow2_add pow2_1)
  with assms(1,2) have "\<bar>x - y\<bar> \<le> pow2 (i + 1)" by linarith
  then show ?thesis unfolding sub64_def using assms(3,4) by (intro f64_abs) simp_all
qed

lemma mul64_abs:
  assumes "\<bar>x\<bar> \<le> pow2 i" "\<bar>y\<bar> \<le> pow2 j" "- 1074 \<le> i + j" "i + j < 1024"
  shows "\<exists>r. mul64 x y = Some r \<and> \<bar>r\<bar> \<le> pow2 (i + j)"
proof -
  have "\<bar>x * y\<bar> \<le> pow2 i * pow2 j"
    unfolding abs_mult using assms(1,2) by (intro mult_mono) simp_all
  then have "\<bar>x * y\<bar> \<le> pow2 (i + j)" by (simp add: pow2_add)
  then show ?thesis unfolding mul64_def using assms(3,4) by (intro f64_abs) simp_all
qed

lemma div64_abs:
  assumes "\<bar>x\<bar> \<le> pow2 i" "inrange i' j' y" "- 1074 \<le> i - i'" "i - i' < 1024"
  shows "\<exists>r. div64 x y = Some r \<and> \<bar>r\<bar> \<le> pow2 (i - i')"
proof -
  from assms(2) have pos: "0 < y" by (rule inrange_pos)
  have b: "pow2 (i - i') * pow2 i' = pow2 i" by (simp flip: pow2_add)
  have "\<bar>x\<bar> \<le> pow2 (i - i') * pow2 i'" using assms(1) by (simp add: b)
  also have "\<dots> \<le> pow2 (i - i') * y" using assms(2) by (simp add: inrange_def)
  finally have "\<bar>x / y\<bar> \<le> pow2 (i - i')" using pos by (simp add: pos_divide_le_eq)
  then have "\<exists>r. f64 (x / y) = Some r \<and> \<bar>r\<bar> \<le> pow2 (i - i')"
    using assms(3,4) by (intro f64_abs) simp_all
  with pos show ?thesis by (simp add: div64_def)
qed

lemma nat_abs_le:
  assumes "x \<in> \<nat>" "x \<le> 2 ^ 53"
  shows "\<bar>x\<bar> \<le> pow2 53"
proof -
  from assms(1) have "0 \<le> x" by (auto elim!: Nats_cases)
  with assms(2) have "\<bar>x\<bar> \<le> 2 ^ 53" by simp
  then have "\<bar>x\<bar> \<le> pow2 (int 53)" by (simp only: pow2_nat)
  then show ?thesis by simp
qed

lemma mul64_0_left [simp]: "mul64 0 y = Some 0"
  by (simp add: mul64_def)

lemma mul64_0_right [simp]: "mul64 x 0 = Some 0"
  by (simp add: mul64_def)

lemma inrange_nz: "inrange i j x \<Longrightarrow> x \<noteq> 0"
  using inrange_pos [of i j x] by auto

lemma log2_pow2 [simp]: "log 2 (pow2 k) = of_int k"
  by (simp add: pow2_def)

lemma log2_inrange:
  assumes "inrange (- k) k x"
  shows "\<bar>log 2 x\<bar> \<le> of_int k"
proof -
  from assms have pos: "0 < x" by (rule inrange_pos)
  from assms have "log 2 (pow2 (- k)) \<le> log 2 x" "log 2 x \<le> log 2 (pow2 k)"
    using pos by (simp_all add: inrange_def del: log2_pow2)
  then show ?thesis by simp
qed

lemma ln_inrange:
  assumes "inrange (- k) k x" "0 \<le> k"
  shows "\<bar>ln x\<bar> \<le> of_int k"
proof -
  from assms(1) have pos: "0 < x" by (rule inrange_pos)
  have l2: "0 < ln (2::real)" "ln (2::real) \<le> 1"
    using ln_2_less_1 by simp_all
  have "ln x = log 2 x * ln 2" using pos by (simp add: log_def)
  then have "\<bar>ln x\<bar> = \<bar>log 2 x\<bar> * ln 2" using l2(1) by (simp add: abs_mult)
  also have "\<dots> \<le> \<bar>log 2 x\<bar> * 1" using l2(2) by (intro mult_left_mono) simp_all
  also have "\<dots> \<le> of_int k" using log2_inrange [OF assms(1)] by simp
  finally show ?thesis .
qed

lemma exp_le_pow2:
  assumes "x \<le> of_nat m"
  shows "exp x \<le> pow2 (2 * int m)"
proof -
  have "exp x \<le> exp (of_nat m * (1::real))" using assms by simp
  also have "\<dots> = exp 1 ^ m" by (rule exp_of_nat_mult)
  also have "\<dots> \<le> 4 ^ m" using exp_le by (intro power_mono) simp_all
  also have "(4::real) ^ m = 2 ^ (2 * m)" by (simp add: power_mult)
  also have "\<dots> = pow2 (int (2 * m))" by (simp only: pow2_nat)
  finally show ?thesis by simp
qed

lemma exp64_bound:
  assumes "\<bar>x\<bar> \<le> pow2 8"
  shows "\<exists>r. exp64 x = Some r \<and> \<bar>r\<bar> \<le> pow2 512"
proof -
  from assms have "x \<le> of_nat 256" by (simp add: pow2_simps)
  from exp_le_pow2 [OF this] have "\<bar>exp x\<bar> \<le> pow2 512" by simp
  then have "\<exists>r. f64 (exp x) = Some r \<and> \<bar>r\<bar> \<le> pow2 512" by (rule f64_abs) simp_all
  then show ?thesis by (simp add: exp64_def)
qed

lemma sqrt_le_pow2:
  assumes "0 \<le> x" "x \<le> pow2 (2 * k)"
  shows "sqrt x \<le> pow2 k"
proof -
  have "pow2 (2 * k) = (pow2 k) ^ 2"
    using pow2_add [of k k] by (simp add: power2_eq_square)
  with assms(2) have "sqrt x \<le> sqrt ((pow2 k) ^ 2)" by (simp only: real_sqrt_le_iff)
  then show ?thesis using pow2_pos [of k] by (simp add: abs_of_pos)
qed

lemma lit_abs: "\<bar>v\<bar> \<le> pow2 k \<Longrightarrow> - 1074 \<le> k \<Longrightarrow> \<bar>lit v\<bar> \<le> pow2 k"
  unfolding lit_def by (rule round64_abs_le_pow2)

lemma lit_inrange:
  assumes "inrange i j v" "- 1074 \<le> i"
  shows "inrange i j (lit v)"
proof -
  from assms(1) have lo: "pow2 i \<le> v" and hi: "v \<le> pow2 j" by (simp_all add: inrange_def)
  from lo hi have ij: "i \<le> j" using pow2_le_iff [of i j] by linarith
  have "pow2 i \<le> round64 v" using lo assms(2) by (rule round64_ge_pow2)
  moreover have "round64 v \<le> pow2 j" using hi assms(2) ij by (intro round64_le_pow2) simp_all
  ultimately show ?thesis by (simp add: inrange_def lit_def)
qed

section \<open>Verification: the PRR as a function of the cell a\<close>

lemma ratio_f64:
  assumes "0 \<le> x" "x \<le> y" "0 < y"
  shows "\<exists>r. f64 (x / y) = Some r \<and> 0 \<le> r \<and> r \<le> 1"
proof -
  from assms have q: "0 \<le> x / y" "x / y \<le> 1" by simp_all
  then have "\<bar>x / y\<bar> \<le> pow2 0" by simp
  then have s: "f64 (x / y) = Some (round64 (x / y))" by (rule f64_Some) simp_all
  have "round64 (x / y) \<le> pow2 0" using q(2) by (intro round64_le_pow2) simp_all
  moreover have "0 \<le> round64 (x / y)" using q(1) by (rule round64_nonneg)
  ultimately show ?thesis using s by simp
qed

lemma computePRR64_value:
  assumes "a t \<in> \<nat>" "b t \<in> \<nat>" "c t \<in> \<nat>" "d t \<in> \<nat>"
    and "a t + b t \<le> 2 ^ 53" "c t + d t \<le> 2 ^ 53"
    and "0 < a t + b t" "0 < c t + d t" "0 < c t"
  shows "\<exists>x y r. f64 (a t / (a t + b t)) = Some x \<and> f64 (c t / (c t + d t)) = Some y
           \<and> 0 \<le> x \<and> 0 < y \<and> f64 (x / y) = Some r \<and> computePRR64 t = Some r"
proof -
  from assms(1-4) have nn: "0 \<le> a t" "0 \<le> b t" "0 \<le> c t" "0 \<le> d t"
    by (auto elim!: Nats_cases)
  have ab: "add64 (a t) (b t) = Some (a t + b t)"
    unfolding add64_def using assms(1,2,5) by (intro f64_nat Nats_add)
  have cd: "add64 (c t) (d t) = Some (c t + d t)"
    unfolding add64_def using assms(3,4,6) by (intro f64_nat Nats_add)
  obtain x where x: "f64 (a t / (a t + b t)) = Some x" "0 \<le> x" "x \<le> 1"
    using ratio_f64 [of "a t" "a t + b t"] nn assms(7) by auto
  have "1 \<le> c t" using assms(3,9) by (auto elim!: Nats_cases)
  then have "pow2 (- 53) \<le> c t / (c t + d t)"
    using assms(6,8) by (simp add: pow2_neg_numeral divide_simps) 
  then have lo: "pow2 (- 53) \<le> round64 (c t / (c t + d t))"
    by (intro round64_ge_pow2) simp_all
  obtain y where y: "f64 (c t / (c t + d t)) = Some y" "0 \<le> y" "y \<le> 1"
    using ratio_f64 [of "c t" "c t + d t"] nn assms(8) by auto
  from y(1) have yr: "y = round64 (c t / (c t + d t))"
    by (auto simp: f64_def Let_def split: if_splits)
  with lo have ylo: "pow2 (- 53) \<le> y" by simp
  then have ypos: "0 < y" using pow2_pos [of "- 53"] by linarith
  have "x / y \<le> 1 / pow2 (- 53)"
    using x(2,3) ylo ypos by (intro frac_le) simp_all
  also have "1 / pow2 (- 53) = pow2 53" by (simp add: pow2_simps)
  finally have "\<bar>x / y\<bar> \<le> pow2 53" using x(2) ypos by simp
  then have r: "f64 (x / y) = Some (round64 (x / y))" by (rule f64_Some) simp_all
  have "computePRR64 t = Some (round64 (x / y))"
    using assms(7,8,9) ypos x(1) y(1) r
    by (simp add: computePRR64_def ab cd div64_def)
  with x y ypos r show ?thesis by blast
qed




text \<open>
  With \<open>b > 0\<close> the increase is strict on the reals but not on doubles: the quotients
  \<open>94911150 / 94911151\<close> and \<open>94911151 / 94911152\<close> round to the same double, and
  \<open>computePRR\<close> returns \<open>1.9999999789276606\<close> for both tables.
\<close>

lemma near_one_1: "f64 (94911150 / 94911151) = Some (2251799789959903 / 2251799813685248)"
  by (rule f64_value [where e = "- 1" and k = 9007199159839612]) (simp_all add: f64_ev)

lemma near_one_2: "f64 (94911151 / 94911152) = Some (2251799789959903 / 2251799813685248)"
  by (rule f64_value [where e = "- 1" and k = 9007199159839612]) (simp_all add: f64_ev)

lemma near_one_3: "f64 (2251799789959903 / 1125899906842624) = Some (2251799789959903 / 1125899906842624)"
  by (rule f64_value [where e = 0 and k = 9007199159839612]) (simp_all add: f64_ev)

lemma computePRR64_rounding_plateau:
  "computePRR64 \<lparr>a = 94911150, b = 1, c = 1, d = 1, n = 94911153\<rparr>
     = Some (2251799789959903 / 1125899906842624)
   \<and> computePRR64 \<lparr>a = 94911151, b = 1, c = 1, d = 1, n = 94911154\<rparr>
     = Some (2251799789959903 / 1125899906842624)"
  by (simp add: computePRR64_def add64_nat div64_def f64_half near_one_1 near_one_2 near_one_3)

text \<open>
  On doubles, too, the PRR of the documented example is not 10: the two rates round to
  the doubles \<open>0.03\<close> and \<open>0.003015075376884422\<close>, and their quotient to the double
  \<open>9.95\<close>.
\<close>

lemma example_rate_drug: "f64 (150 / 5000) = Some (1080863910568919 / 36028797018963968)"
  by (rule f64_value [where e = "- 6" and k = 8646911284551352]) (simp_all add: f64_ev)

lemma example_rate_others: "f64 (3000 / 995000) = Some (869036310005161 / 288230376151711744)"
  by (rule f64_value [where e = "- 9" and k = 6952290480041288]) (simp_all add: f64_ev)

lemma example_rate_quotient:
  "f64 (1080863910568919 / 36028797018963968 / (869036310005161 / 288230376151711744))
     = Some (2800676018271027 / 281474976710656)"
  by (rule f64_value [where e = 3 and k = 5601352036542054]) (simp_all add: f64_ev)

lemma example_prr64:
  "computePRR64 exampleTable = Some (2800676018271027 / 281474976710656)
   \<and> (2800676018271027 / 281474976710656 :: real) < 10"
  by (simp add: computePRR64_def exampleTable_def add64_nat div64_def
        example_rate_drug [simplified] example_rate_others [simplified]
        example_rate_quotient [simplified])

section \<open>Verification: finiteness of the metric calculators\<close>

lemma safeCounts_nonneg:
  assumes "safeCounts t"
  shows "0 \<le> a t" "0 \<le> b t" "0 \<le> c t" "0 \<le> d t"
  using assms by (auto simp: safeCounts_def elim!: Nats_cases)

lemma safeCounts_le:
  assumes "safeCounts t"
  shows "a t \<le> 2 ^ 53" "b t \<le> 2 ^ 53" "c t \<le> 2 ^ 53" "d t \<le> 2 ^ 53"
  using assms safeCounts_nonneg [OF assms] by (simp_all add: safeCounts_def)

lemma safeCounts_abs:
  assumes "safeCounts t"
  shows "\<bar>a t\<bar> \<le> pow2 53" "\<bar>b t\<bar> \<le> pow2 53" "\<bar>c t\<bar> \<le> pow2 53" "\<bar>d t\<bar> \<le> pow2 53"
  using assms safeCounts_le [OF assms] by (auto simp: safeCounts_def intro: nat_abs_le)

lemma safeCounts_inrange:
  assumes "safeCounts t"
  shows "a t \<noteq> 0 \<Longrightarrow> inrange 0 53 (a t)" "b t \<noteq> 0 \<Longrightarrow> inrange 0 53 (b t)"
    "c t \<noteq> 0 \<Longrightarrow> inrange 0 53 (c t)" "d t \<noteq> 0 \<Longrightarrow> inrange 0 53 (d t)"
  using assms safeCounts_le [OF assms] by (auto simp: safeCounts_def intro: inrange_nat)

lemma computeROR64_finite:
  assumes "safeCounts t"
  shows "\<exists>r. computeROR64 t = Some r \<and> (b t = 0 \<or> c t = 0 \<longrightarrow> r = 0)"
proof (cases "b t = 0 \<or> c t = 0")
  case True
  then show ?thesis by (simp add: computeROR64_def)
next
  case False
  obtain ad where ad: "mul64 (a t) (d t) = Some ad" "\<bar>ad\<bar> \<le> pow2 (53 + 53)"
    using mul64_abs [OF safeCounts_abs(1,4) [OF assms]] by auto
  obtain bc where bc: "mul64 (b t) (c t) = Some bc" "inrange (0 + 0) (53 + 53) bc"
    using mul64_inrange [OF safeCounts_inrange(2,3) [OF assms]] False by auto
  obtain r where "div64 ad bc = Some r"
    using div64_abs [OF ad(2) bc(2)] by auto
  with False ad bc show ?thesis by (simp add: computeROR64_def)
qed

lemma mul64_zero_or_inrange:
  assumes "x = 0 \<or> inrange 0 i x" "y = 0 \<or> inrange 0 j y" "i + j < 1024"
  shows "\<exists>r. mul64 x y = Some r \<and> (r = 0 \<or> inrange 0 (i + j) r) \<and> (r = 0 \<longleftrightarrow> x = 0 \<or> y = 0)"
proof (cases "x = 0 \<or> y = 0")
  case True
  then show ?thesis by auto
next
  case False
  with assms have "inrange 0 i x" "inrange 0 j y" by simp_all
  from mul64_inrange [OF this] assms(3)
  obtain r where r: "mul64 x y = Some r" "inrange (0 + 0) (i + j) r" by auto
  then have "r \<noteq> 0" by (auto dest: inrange_nz)
  with r False show ?thesis by simp
qed

lemma nat_zero_or_inrange:
  assumes "x \<in> \<nat>" "x \<le> 2 ^ 53"
  shows "x = 0 \<or> inrange 0 53 x"
  using assms inrange_nat by blast

lemma computeChi2_64_finite:
  assumes "safeCounts t"
  shows "\<exists>r. computeChi2_64 t = Some r \<and> \<bar>r\<bar> \<le> pow2 267
      \<and> (a t + b t = 0 \<or> c t + d t = 0 \<or> a t + c t = 0 \<or> b t + d t = 0 \<longrightarrow> r = 0)"
proof -
  note nn = safeCounts_nonneg [OF assms]
  from assms have N: "a t \<in> \<nat>" "b t \<in> \<nat>" "c t \<in> \<nat>" "d t \<in> \<nat>"
    and tot: "a t + b t + c t + d t \<le> 2 ^ 53" by (simp_all add: safeCounts_def)
  have n1: "add64 (a t) (b t) = Some (a t + b t)"
    using N tot nn by (intro add64_nat) simp_all
  have n2: "add64 (a t + b t) (c t) = Some (a t + b t + c t)"
    using N tot nn by (intro add64_nat Nats_add) simp_all
  have n3: "add64 (a t + b t + c t) (d t) = Some (a t + b t + c t + d t)"
    using N tot nn by (intro add64_nat Nats_add) simp_all
  have cd: "add64 (c t) (d t) = Some (c t + d t)"
    using N tot nn by (intro add64_nat) simp_all
  have ac: "add64 (a t) (c t) = Some (a t + c t)"
    using N tot nn by (intro add64_nat) simp_all
  have bd: "add64 (b t) (d t) = Some (b t + d t)"
    using N tot nn by (intro add64_nat) simp_all
  have z: "a t + b t = 0 \<or> inrange 0 53 (a t + b t)" "c t + d t = 0 \<or> inrange 0 53 (c t + d t)"
    "a t + c t = 0 \<or> inrange 0 53 (a t + c t)" "b t + d t = 0 \<or> inrange 0 53 (b t + d t)"
  proof -
    have S: "a t + b t \<in> \<nat>" "c t + d t \<in> \<nat>" "a t + c t \<in> \<nat>" "b t + d t \<in> \<nat>"
      by (intro Nats_add N)+
    have L: "a t + b t \<le> 2 ^ 53" "c t + d t \<le> 2 ^ 53" "a t + c t \<le> 2 ^ 53" "b t + d t \<le> 2 ^ 53"
      using tot nn by linarith+
    show "a t + b t = 0 \<or> inrange 0 53 (a t + b t)" by (rule nat_zero_or_inrange [OF S(1) L(1)])
    show "c t + d t = 0 \<or> inrange 0 53 (c t + d t)" by (rule nat_zero_or_inrange [OF S(2) L(2)])
    show "a t + c t = 0 \<or> inrange 0 53 (a t + c t)" by (rule nat_zero_or_inrange [OF S(3) L(3)])
    show "b t + d t = 0 \<or> inrange 0 53 (b t + d t)" by (rule nat_zero_or_inrange [OF S(4) L(4)])
  qed
  obtain m1 where m1: "mul64 (a t + b t) (c t + d t) = Some m1" "m1 = 0 \<or> inrange 0 (53 + 53) m1"
    "m1 = 0 \<longleftrightarrow> a t + b t = 0 \<or> c t + d t = 0"
    using mul64_zero_or_inrange [OF z(1,2)] by auto
  obtain m2 where m2: "mul64 m1 (a t + c t) = Some m2" "m2 = 0 \<or> inrange 0 (53 + 53 + 53) m2"
    "m2 = 0 \<longleftrightarrow> m1 = 0 \<or> a t + c t = 0"
    using mul64_zero_or_inrange [OF m1(2) z(3)] by auto
  obtain dn where dn: "mul64 m2 (b t + d t) = Some dn" "dn = 0 \<or> inrange 0 (53 + 53 + 53 + 53) dn"
    "dn = 0 \<longleftrightarrow> m2 = 0 \<or> b t + d t = 0"
    using mul64_zero_or_inrange [OF m2(2) z(4)] by auto
  show ?thesis
  proof (cases "dn = 0")
    case True
    then have "computeChi2_64 t = Some 0"
      by (simp add: computeChi2_64_def n1 n2 n3 cd ac bd m1(1) m2(1) dn(1))
    then show ?thesis by (simp add: less_imp_le)
  next
    case False
    with dn(2) have dr: "inrange 0 212 dn" by simp
    obtain ad where ad: "mul64 (a t) (d t) = Some ad" "\<bar>ad\<bar> \<le> pow2 (53 + 53)"
      using mul64_abs [OF safeCounts_abs(1,4) [OF assms]] by auto
    obtain bc where bc: "mul64 (b t) (c t) = Some bc" "\<bar>bc\<bar> \<le> pow2 (53 + 53)"
      using mul64_abs [OF safeCounts_abs(2,3) [OF assms]] by auto
    obtain df where df: "sub64 ad bc = Some df" "\<bar>df\<bar> \<le> pow2 (53 + 53 + 1)"
      using sub64_abs [OF ad(2) bc(2)] by auto
    have "\<bar>df ^ 2\<bar> \<le> pow2 107 * pow2 107"
      unfolding power2_eq_square abs_mult using df(2) by (intro mult_mono) simp_all
    then have "\<bar>df ^ 2\<bar> \<le> pow2 214" by (simp flip: pow2_add)
    from f64_abs [OF this] obtain sq where sq: "f64 (df ^ 2) = Some sq" "\<bar>sq\<bar> \<le> pow2 214"
      by auto
    have "\<bar>a t + b t + c t + d t\<bar> \<le> pow2 53"
      using N tot by (intro nat_abs_le Nats_add)
    from mul64_abs [OF sq(2) this] obtain num
      where num: "mul64 sq (a t + b t + c t + d t) = Some num" "\<bar>num\<bar> \<le> pow2 (214 + 53)"
      by auto
    from div64_abs [OF num(2) dr] obtain r where r: "div64 num dn = Some r" "\<bar>r\<bar> \<le> pow2 (214 + 53 - 0)"
      by auto
    with False have "computeChi2_64 t = Some r"
      by (simp add: computeChi2_64_def n1 n2 n3 cd ac bd m1(1) m2(1) dn(1) ad bc df sq num)
    moreover from False have "\<not> (a t + b t = 0 \<or> c t + d t = 0 \<or> a t + c t = 0 \<or> b t + d t = 0)"
      using m1(3) m2(3) dn(3) by blast
    ultimately show ?thesis using r(2) by simp
  qed
qed

lemma computeIC64_finite:
  assumes "safeCounts t"
  shows "\<exists>r. computeIC64 t = Some r \<and> \<bar>r\<bar> \<le> pow2 7 \<and> (a t = 0 \<longrightarrow> r = 0)"
proof -
  note nn = safeCounts_nonneg [OF assms]
  from assms have N: "a t \<in> \<nat>" "b t \<in> \<nat>" "c t \<in> \<nat>" "d t \<in> \<nat>"
    and tot: "a t + b t + c t + d t \<le> 2 ^ 53" by (simp_all add: safeCounts_def)
  have n1: "add64 (a t) (b t) = Some (a t + b t)"
    using N tot nn by (intro add64_nat) simp_all
  have n2: "add64 (a t + b t) (c t) = Some (a t + b t + c t)"
    using N tot nn by (intro add64_nat Nats_add) simp_all
  have n3: "add64 (a t + b t + c t) (d t) = Some (a t + b t + c t + d t)"
    using N tot nn by (intro add64_nat Nats_add) simp_all
  have ac: "add64 (a t) (c t) = Some (a t + c t)"
    using N tot nn by (intro add64_nat) simp_all
  show ?thesis
  proof (cases "a t = 0")
    case True
    have "computeIC64 t = Some 0"
      unfolding computeIC64_def n1 n2 n3 ac bind.bind_lunit using True by simp
    then show ?thesis by (simp add: less_imp_le)
  next
    case False
    with nn have pos: "0 < a t" by simp
    have S: "a t + b t \<in> \<nat>" "a t + c t \<in> \<nat>" "a t + b t + c t + d t \<in> \<nat>"
      by (intro Nats_add N)+
    have L: "a t + b t \<le> 2 ^ 53" "a t + c t \<le> 2 ^ 53"
      using tot nn by linarith+
    have Z: "a t + b t \<noteq> 0" "a t + c t \<noteq> 0" "a t + b t + c t + d t \<noteq> 0"
      using pos nn by linarith+
    have rab: "inrange 0 53 (a t + b t)" by (rule inrange_nat [OF S(1) Z(1) L(1)])
    have rac: "inrange 0 53 (a t + c t)" by (rule inrange_nat [OF S(2) Z(2) L(2)])
    have rn: "inrange 0 53 (a t + b t + c t + d t)" by (rule inrange_nat [OF S(3) Z(3) tot])
    have ra: "inrange 0 53 (a t)" by (rule safeCounts_inrange(1) [OF assms False])
    obtain m where m: "mul64 (a t + b t) (a t + c t) = Some m" "inrange (0 + 0) (53 + 53) m"
      using mul64_inrange [OF rab rac] by auto
    obtain ex where ex: "div64 m (a t + b t + c t + d t) = Some ex" "inrange (0 + 0 - 53) (53 + 53 - 0) ex"
      using div64_inrange [OF m(2) rn] by auto
    from ex(2) have exnz: "ex \<noteq> 0" by (rule inrange_nz)
    obtain q where q: "div64 (a t) ex = Some q" "inrange (0 - (53 + 53 - 0)) (53 - (0 + 0 - 53)) q"
      using div64_inrange [OF ra ex(2)] by auto
    from q(2) have q': "inrange (- 106) 106 q" by simp
    then have qpos: "0 < q" by (rule inrange_pos)
    have "\<bar>log 2 q\<bar> \<le> of_int 106" by (rule log2_inrange [OF q'])
    also have "\<dots> \<le> pow2 7" by (simp add: pow2_simps)
    finally obtain r where r: "f64 (log 2 q) = Some r" "\<bar>r\<bar> \<le> pow2 7"
      using f64_abs [of "log 2 q" 7] by auto
    have "computeIC64 t = Some r"
      using False Z exnz qpos r(1)
      by (simp add: computeIC64_def n1 n2 n3 ac m ex q log2_64_pos_def)
    with r(2) False show ?thesis by simp
  qed
qed

lemma sqrt64_pos_count:
  assumes "inrange 0 53 x"
  shows "\<exists>r. sqrt64_pos (max x 0.5) = Some r \<and> inrange 0 27 r"
proof -
  from assms have x: "1 \<le> x" "x \<le> pow2 53" by (simp_all add: inrange_def)
  then have mx: "max x 0.5 = x" by simp
  have "x \<le> pow2 (2 * 27)" using x(2) pow2_mono [of 53 54] by simp
  then have "sqrt x \<le> pow2 27" using x(1) by (intro sqrt_le_pow2) simp_all
  moreover have "1 \<le> sqrt x" using x(1) by simp
  ultimately have "inrange 0 27 (sqrt x)" by (simp add: inrange_def)
  from f64_inrange [OF this] obtain r where "f64 (sqrt x) = Some r" "inrange 0 27 r" by auto
  then show ?thesis using x(1) by (simp add: sqrt64_pos_def mx)
qed

lemma ln2_inrange: "inrange (- 1) 0 (lit (ln 2))"
proof -
  have "1 / 2 < ln (2::real)" by (rule ln_2_gt_half)
  moreover have "ln (2::real) < 1" by (rule ln_2_less_1)
  ultimately have "inrange (- 1) 0 (ln 2)" by (simp add: inrange_def pow2_simps)
  then show ?thesis by (rule lit_inrange) simp
qed

lemma lit196_inrange: "inrange 0 1 (lit 1.96)"
proof -
  have "inrange 0 1 (1.96 :: real)" by (simp add: inrange_def pow2_simps)
  then show ?thesis by (rule lit_inrange) simp
qed

lemma ic_se_term:
  assumes "inrange 0 53 x"
  shows "\<exists>r l se m. sqrt64_pos (max x 0.5) = Some r \<and> mul64 (lit (ln 2)) r = Some l
      \<and> div64 1 l = Some se \<and> mul64 (lit 1.96) se = Some m \<and> \<bar>m\<bar> \<le> pow2 7"
proof -
  obtain r where r: "sqrt64_pos (max x 0.5) = Some r" "inrange 0 27 r"
    using sqrt64_pos_count [OF assms] by auto
  obtain l where l: "mul64 (lit (ln 2)) r = Some l" "inrange (- 1 + 0) (0 + 27) l"
    using mul64_inrange [OF ln2_inrange r(2)] by auto
  have one: "inrange 0 0 1" by (simp add: inrange_def)
  obtain se where se: "div64 1 l = Some se" "inrange (0 - (0 + 27)) (0 - (- 1 + 0)) se"
    using div64_inrange [OF one l(2)] by auto
  obtain m where m: "mul64 (lit 1.96) se = Some m" "inrange (0 + (0 - (0 + 27))) (1 + (0 - (- 1 + 0))) m"
    using mul64_inrange [OF lit196_inrange se(2)] by auto
  from m(2) have "\<bar>m\<bar> \<le> pow2 2" using inrange_abs [OF m(2)] by simp
  also have "\<dots> \<le> pow2 7" by (intro pow2_mono) simp
  finally show ?thesis using r l se m by blast
qed

lemma computeIC025_64_finite:
  assumes "safeCounts t"
  shows "\<exists>r. computeIC025_64 t = Some r \<and> (a t = 0 \<longrightarrow> r = 0)"
proof -
  obtain ic where ic: "computeIC64 t = Some ic" "\<bar>ic\<bar> \<le> pow2 7"
    using computeIC64_finite [OF assms] by auto
  show ?thesis
  proof (cases "a t \<le> 0")
    case True
    then show ?thesis by (simp add: computeIC025_64_def ic)
  next
    case False
    then have "a t \<noteq> 0" by simp
    from safeCounts_inrange(1) [OF assms this]
    obtain r l se m where s: "sqrt64_pos (max (a t) 0.5) = Some r" "mul64 (lit (ln 2)) r = Some l"
        "div64 1 l = Some se" "mul64 (lit 1.96) se = Some m" "\<bar>m\<bar> \<le> pow2 7"
      using ic_se_term by blast
    obtain v where "sub64 ic m = Some v" using sub64_abs [OF ic(2) s(5)] by auto
    with False s ic show ?thesis by (simp add: computeIC025_64_def)
  qed
qed

lemma computeIC975_64_finite:
  assumes "safeCounts t"
  shows "\<exists>r. computeIC975_64 t = Some r \<and> (a t = 0 \<longrightarrow> r = 0)"
proof -
  obtain ic where ic: "computeIC64 t = Some ic" "\<bar>ic\<bar> \<le> pow2 7"
    using computeIC64_finite [OF assms] by auto
  show ?thesis
  proof (cases "a t \<le> 0")
    case True
    then show ?thesis by (simp add: computeIC975_64_def ic)
  next
    case False
    then have "a t \<noteq> 0" by simp
    from safeCounts_inrange(1) [OF assms this]
    obtain r l se m where s: "sqrt64_pos (max (a t) 0.5) = Some r" "mul64 (lit (ln 2)) r = Some l"
        "div64 1 l = Some se" "mul64 (lit 1.96) se = Some m" "\<bar>m\<bar> \<le> pow2 7"
      using ic_se_term by blast
    obtain v where "add64 ic m = Some v" using add64_abs [OF ic(2) s(5)] by auto
    with False s ic show ?thesis by (simp add: computeIC975_64_def)
  qed
qed

lemma computeROR_CI64_finite:
  assumes "safeCounts t"
  shows "\<exists>r. computeROR_CI64 t = Some r
      \<and> (a t = 0 \<or> b t = 0 \<or> c t = 0 \<or> d t = 0 \<longrightarrow> r = \<lparr>lower = 0, upper = 0\<rparr>)"
proof (cases "a t = 0 \<or> b t = 0 \<or> c t = 0 \<or> d t = 0")
  case True
  then show ?thesis by (simp add: computeROR_CI64_def)
next
  case False
  note R = safeCounts_inrange [OF assms]
  from False have ra: "inrange 0 53 (a t)" and rb: "inrange 0 53 (b t)"
    and rc: "inrange 0 53 (c t)" and rd: "inrange 0 53 (d t)"
    using R by simp_all
  have one: "inrange 0 0 1" by (simp add: inrange_def)
  obtain ad where ad: "mul64 (a t) (d t) = Some ad" "inrange (0 + 0) (53 + 53) ad"
    using mul64_inrange [OF ra rd] by auto
  obtain bc where bc: "mul64 (b t) (c t) = Some bc" "inrange (0 + 0) (53 + 53) bc"
    using mul64_inrange [OF rb rc] by auto
  obtain q where q: "div64 ad bc = Some q" "inrange (0 + 0 - (53 + 53)) (53 + 53 - (0 + 0)) q"
    using div64_inrange [OF ad(2) bc(2)] by auto
  from q(2) have q': "inrange (- 106) 106 q" by simp
  then have qpos: "0 < q" by (rule inrange_pos)
  have "\<bar>ln q\<bar> \<le> of_int 106" by (rule ln_inrange [OF q']) simp
  also have "\<dots> \<le> pow2 7" by (simp add: pow2_simps)
  finally obtain lnROR where ln: "f64 (ln q) = Some lnROR" "\<bar>lnROR\<bar> \<le> pow2 7"
    using f64_abs [of "ln q" 7] by auto
  obtain ia where ia: "div64 1 (a t) = Some ia" "inrange (0 - 53) (0 - 0) ia"
    using div64_inrange [OF one ra] by auto
  obtain ib where ib: "div64 1 (b t) = Some ib" "inrange (0 - 53) (0 - 0) ib"
    using div64_inrange [OF one rb] by auto
  obtain ic where ic: "div64 1 (c t) = Some ic" "inrange (0 - 53) (0 - 0) ic"
    using div64_inrange [OF one rc] by auto
  obtain id where id: "div64 1 (d t) = Some id" "inrange (0 - 53) (0 - 0) id"
    using div64_inrange [OF one rd] by auto
  have b0: "0 \<le> ib" "ib \<le> pow2 0" using ib(2) inrange_pos [OF ib(2)] by (simp_all add: inrange_def)
  obtain s1 where s1: "add64 ia ib = Some s1" "inrange (- 53) 1 s1"
    using add64_inrange [of "- 53" 0 ia ib] ia(2) b0 by auto
  have c0: "0 \<le> ic" "ic \<le> pow2 1"
    using ic(2) inrange_pos [OF ic(2)] pow2_mono [of 0 1] by (simp_all add: inrange_def)
  obtain s2 where s2: "add64 s1 ic = Some s2" "inrange (- 53) 2 s2"
    using add64_inrange [of "- 53" 1 s1 ic] s1(2) c0 by auto
  have d0: "0 \<le> id" "id \<le> pow2 2"
    using id(2) inrange_pos [OF id(2)] pow2_mono [of 0 2] by (simp_all add: inrange_def)
  obtain s3 where s3: "add64 s2 id = Some s3" "inrange (- 53) 3 s3"
    using add64_inrange [of "- 53" 2 s2 id] s2(2) d0 by auto
  from s3(2) have s3pos: "0 < s3" by (rule inrange_pos)
  have "s3 \<le> pow2 (2 * 2)" using s3(2) pow2_mono [of 3 4] by (simp add: inrange_def)
  then have "sqrt s3 \<le> pow2 2" using s3pos by (intro sqrt_le_pow2) simp_all
  then have "\<bar>sqrt s3\<bar> \<le> pow2 2" using s3pos by simp
  from f64_abs [OF this] obtain se where se: "f64 (sqrt s3) = Some se" "\<bar>se\<bar> \<le> pow2 2"
    by auto
  have "\<bar>lit 1.96\<bar> \<le> pow2 1" using inrange_abs [OF lit196_inrange] .
  from mul64_abs [OF this se(2)] obtain m where m: "mul64 (lit 1.96) se = Some m" "\<bar>m\<bar> \<le> pow2 (1 + 2)"
    by auto
  from m(2) have m7: "\<bar>m\<bar> \<le> pow2 7" using pow2_mono [of 3 7] by simp
  obtain lo where lo: "sub64 lnROR m = Some lo" "\<bar>lo\<bar> \<le> pow2 (7 + 1)"
    using sub64_abs [OF ln(2) m7] by auto
  obtain hi where hi: "add64 lnROR m = Some hi" "\<bar>hi\<bar> \<le> pow2 (7 + 1)"
    using add64_abs [OF ln(2) m7] by auto
  obtain l where l: "exp64 lo = Some l" using exp64_bound [of lo] lo(2) by auto
  obtain u where u: "exp64 hi = Some u" using exp64_bound [of hi] hi(2) by auto
  show ?thesis
    using False qpos s3pos ln(1) se(1)
    by (simp add: computeROR_CI64_def ad bc q ia ib ic id s1 s2 s3 m(1) [simplified] lo hi l u
          log64_pos_def sqrt64_pos_def)
qed

lemma computePRR64_finite:
  assumes "safeCounts t"
  shows "\<exists>r. computePRR64 t = Some r
      \<and> (a t + b t = 0 \<or> c t + d t = 0 \<or> c t = 0 \<longrightarrow> r = 0)"
proof -
  note nn = safeCounts_nonneg [OF assms]
  from assms have N: "a t \<in> \<nat>" "b t \<in> \<nat>" "c t \<in> \<nat>" "d t \<in> \<nat>"
    and tot: "a t + b t + c t + d t \<le> 2 ^ 53" by (simp_all add: safeCounts_def)
  have L: "a t + b t \<le> 2 ^ 53" "c t + d t \<le> 2 ^ 53" using tot nn by linarith+
  have ab: "add64 (a t) (b t) = Some (a t + b t)" by (rule add64_nat [OF N(1,2) L(1)])
  have cd: "add64 (c t) (d t) = Some (c t + d t)" by (rule add64_nat [OF N(3,4) L(2)])
  show ?thesis
  proof (cases "a t + b t = 0 \<or> c t + d t = 0 \<or> c t = 0")
    case True
    then show ?thesis by (simp add: computePRR64_def ab cd)
  next
    case False
    with nn have "0 < a t + b t" "0 < c t + d t" "0 < c t" by linarith+
    from computePRR64_value [OF N L this] False show ?thesis by blast
  qed
qed

lemma mul64_nonneg:
  assumes "0 \<le> x" "x \<le> pow2 i" "0 \<le> y" "y \<le> pow2 j" "- 1074 \<le> i + j" "i + j < 1024"
  shows "\<exists>r. mul64 x y = Some r \<and> 0 \<le> r \<and> r \<le> pow2 (i + j)"
proof -
  have "x * y \<le> pow2 i * pow2 j" using assms(1-4) by (intro mult_mono) simp_all
  then have hi: "x * y \<le> pow2 (i + j)" by (simp add: pow2_add)
  have lo: "0 \<le> x * y" using assms(1,3) by simp
  from lo hi have "\<bar>x * y\<bar> \<le> pow2 (i + j)" by simp
  then have "f64 (x * y) = Some (round64 (x * y))" using assms(5,6) by (rule f64_Some)
  moreover have "0 \<le> round64 (x * y)" using lo by (rule round64_nonneg)
  moreover have "round64 (x * y) \<le> pow2 (i + j)" using hi assms(5) by (rule round64_le_pow2)
  ultimately show ?thesis by (simp add: mul64_def)
qed

lemma lit_small: "\<bar>v\<bar> \<le> 2 \<Longrightarrow> \<bar>lit v\<bar> \<le> pow2 1"
  by (rule lit_abs) (simp_all add: pow2_simps)

lemma normalCDF64_finite: "\<exists>r. normalCDF64 x = Some r \<and> \<bar>r\<bar> \<le> pow2 518"
proof -
  consider "x < - 8" | "8 < x" | "\<not> x < - 8" "\<not> 8 < x" by blast
  then show ?thesis
  proof cases
    case 1
    then show ?thesis by (simp add: normalCDF64_def less_imp_le)
  next
    case 2
    have "(1::real) \<le> pow2 518" using pow2_mono [of 0 518] by simp
    with 2 show ?thesis by (simp add: normalCDF64_def)
  next
    case 3
    define absX where "absX = \<bar>x\<bar>"
    define sign where "sign = (if x < 0 then - 1 else 1 :: real)"
    from 3 have ax: "0 \<le> absX" "absX \<le> pow2 3" by (simp_all add: absX_def pow2_simps)
    have sg: "\<bar>sign\<bar> \<le> pow2 0" by (simp add: sign_def)
    have p0: "0 \<le> lit 0.3275911" unfolding lit_def by (rule round64_nonneg) simp
    have p1: "lit 0.3275911 \<le> pow2 0"
      using lit_abs [of "0.3275911" 0] by simp
    obtain pa where pa: "mul64 (lit 0.3275911) absX = Some pa" "0 \<le> pa" "pa \<le> pow2 (0 + 3)"
      using mul64_nonneg [OF p0 p1 ax] by auto
    have one3: "inrange 0 3 1" using pow2_mono [of 0 3] by (simp add: inrange_def)
    obtain den where den: "add64 1 pa = Some den" "inrange 0 (3 + 1) den"
      using add64_inrange [OF one3 pa(2)] pa(3) by auto
    have one: "inrange 0 0 1" by (simp add: inrange_def)
    obtain t where t: "div64 1 den = Some t" "inrange (0 - (3 + 1)) (0 - 0) t"
      using div64_inrange [OF one den(2)] by auto
    have t0: "\<bar>t\<bar> \<le> pow2 0" using inrange_abs [OF t(2)] by simp
    have A: "\<bar>lit 1.061405429\<bar> \<le> pow2 1" "\<bar>- lit 1.453152027\<bar> \<le> pow2 1"
      "\<bar>lit 1.421413741\<bar> \<le> pow2 2" "\<bar>- lit 0.284496736\<bar> \<le> pow2 3"
      "\<bar>lit 0.254829592\<bar> \<le> pow2 4"
      using lit_small [of "1.061405429"] lit_small [of "1.453152027"] lit_small [of "1.421413741"]
        lit_small [of "0.284496736"] lit_small [of "0.254829592"]
        pow2_mono [of 1 2] pow2_mono [of 1 3] pow2_mono [of 1 4]
      by simp_all
    obtain u1 where u1: "mul64 (lit 1.061405429) t = Some u1" "\<bar>u1\<bar> \<le> pow2 (1 + 0)"
      using mul64_abs [OF A(1) t0] by auto
    obtain u2 where u2: "add64 u1 (- lit 1.453152027) = Some u2" "\<bar>u2\<bar> \<le> pow2 (1 + 1)"
      using add64_abs [of u1 1 "- lit 1.453152027"] u1(2) A(2) by auto
    obtain u3 where u3: "mul64 u2 t = Some u3" "\<bar>u3\<bar> \<le> pow2 (2 + 0)"
      using mul64_abs [of u2 2 t 0] u2(2) t0 by auto
    obtain u4 where u4: "add64 u3 (lit 1.421413741) = Some u4" "\<bar>u4\<bar> \<le> pow2 (2 + 1)"
      using add64_abs [of u3 2 "lit 1.421413741"] u3(2) A(3) by auto
    obtain u5 where u5: "mul64 u4 t = Some u5" "\<bar>u5\<bar> \<le> pow2 (3 + 0)"
      using mul64_abs [of u4 3 t 0] u4(2) t0 by auto
    obtain u6 where u6: "add64 u5 (- lit 0.284496736) = Some u6" "\<bar>u6\<bar> \<le> pow2 (3 + 1)"
      using add64_abs [of u5 3 "- lit 0.284496736"] u5(2) A(4) by auto
    obtain u7 where u7: "mul64 u6 t = Some u7" "\<bar>u7\<bar> \<le> pow2 (4 + 0)"
      using mul64_abs [of u6 4 t 0] u6(2) t0 by auto
    obtain u8 where u8: "add64 u7 (lit 0.254829592) = Some u8" "\<bar>u8\<bar> \<le> pow2 (4 + 1)"
      using add64_abs [of u7 4 "lit 0.254829592"] u7(2) A(5) by auto
    obtain u9 where u9: "mul64 u8 t = Some u9" "\<bar>u9\<bar> \<le> pow2 (5 + 0)"
      using mul64_abs [of u8 5 t 0] u8(2) t0 by auto
    have nax: "\<bar>- absX\<bar> \<le> pow2 3" "\<bar>absX\<bar> \<le> pow2 3" using ax by simp_all
    obtain e1 where e1: "mul64 (- absX) absX = Some e1" "\<bar>e1\<bar> \<le> pow2 (3 + 3)"
      using mul64_abs [OF nax] by auto
    have two: "inrange 1 1 2" by (simp add: inrange_def pow2_simps)
    obtain e2 where e2: "div64 e1 2 = Some e2" "\<bar>e2\<bar> \<le> pow2 (3 + 3 - 1)"
      using div64_abs [OF e1(2) two] by auto
    from e2(2) have "\<bar>e2\<bar> \<le> pow2 8" using pow2_mono [of 5 8] by simp
    from exp64_bound [OF this] obtain e3 where e3: "exp64 e2 = Some e3" "\<bar>e3\<bar> \<le> pow2 512"
      by auto
    obtain u10 where u10: "mul64 u9 e3 = Some u10" "\<bar>u10\<bar> \<le> pow2 (5 + 512)"
      using mul64_abs [of u9 5 e3 512] u9(2) e3(2) by auto
    have i1: "\<bar>1::real\<bar> \<le> pow2 517" "\<bar>1::real\<bar> \<le> pow2 518"
      using pow2_mono [of 0 517] pow2_mono [of 0 518] by simp_all
    obtain y where y: "sub64 1 u10 = Some y" "\<bar>y\<bar> \<le> pow2 (517 + 1)"
      using sub64_abs [of 1 517 u10] i1(1) u10(2) by auto
    obtain w1 where w1: "mul64 sign y = Some w1" "\<bar>w1\<bar> \<le> pow2 (0 + 518)"
      using mul64_abs [of sign 0 y 518] sg y(2) by auto
    obtain w2 where w2: "add64 1 w1 = Some w2" "\<bar>w2\<bar> \<le> pow2 (518 + 1)"
      using add64_abs [of 1 518 w1] i1(2) w1(2) by auto
    have half: "\<bar>0.5::real\<bar> \<le> pow2 (- 1)" by (simp add: pow2_simps)
    obtain r where r: "mul64 0.5 w2 = Some r" "\<bar>r\<bar> \<le> pow2 (- 1 + 519)"
      using mul64_abs [OF half w2(2)] by auto
    have "normalCDF64 x = Some r"
      using 3
      by (simp add: normalCDF64_def Let_def flip: absX_def sign_def)
         (simp add: pa(1) [simplified] den(1) t(1) u1(1) [simplified] u2(1) [simplified] u3(1)
           u4(1) [simplified] u5(1) u6(1) [simplified] u7(1) u8(1) [simplified] u9(1)
           e1(1) e2(1) e3(1) u10(1) y(1) w1(1) w2(1) r(1) [simplified])
    with r(2) show ?thesis by simp
  qed
qed

lemma chi2PValue1df64_finite:
  assumes "x \<le> pow2 1022"
  shows "\<exists>p. chi2PValue1df64 x = Some p \<and> (x \<le> 0 \<longrightarrow> p = 1)"
proof (cases "x \<le> 0")
  case True
  then show ?thesis by (simp add: chi2PValue1df64_def)
next
  case False
  then have pos: "0 \<le> x" by simp
  have "x \<le> pow2 (2 * 511)" using assms by simp
  with pos have "sqrt x \<le> pow2 511" by (rule sqrt_le_pow2)
  then have "\<bar>sqrt x\<bar> \<le> pow2 511" using pos by simp
  from f64_abs [OF this] obtain r where r: "f64 (sqrt x) = Some r" by auto
  obtain cdf where cdf: "normalCDF64 r = Some cdf" "\<bar>cdf\<bar> \<le> pow2 518"
    using normalCDF64_finite [of r] by auto
  have "\<bar>1::real\<bar> \<le> pow2 518" using pow2_mono [of 0 518] by simp
  from sub64_abs [OF this cdf(2)] obtain v where v: "sub64 1 cdf = Some v" "\<bar>v\<bar> \<le> pow2 (518 + 1)"
    by auto
  have "\<bar>2::real\<bar> \<le> pow2 1" by (simp add: pow2_simps)
  from mul64_abs [OF this v(2)] obtain p where p: "mul64 2 v = Some p" by auto
  with False r cdf v show ?thesis by (simp add: chi2PValue1df64_def sqrt64_pos_def)
qed

lemma f64_overflow: "f64 (2 ^ 1040) = None"
proof -
  have e: "(2::real) ^ 1040 = pow2 (int 1040)" by (simp only: pow2_nat)
  have "round64 (pow2 (int 1040)) = pow2 (int 1040)" by (rule round64_pow2) simp
  then have r: "round64 (2 ^ 1040) = 2 ^ 1040" by (simp only: e)
  have "\<not> (2::real) ^ 1040 < 2 ^ 1024" by (simp only: power_strict_increasing_iff)
  then have "\<not> \<bar>(2::real) ^ 1040\<bar> < 2 ^ 1024" by (simp only: power_abs [symmetric] abs_numeral)
  with r show ?thesis by (simp only: f64_def Let_def if_False)
qed

text \<open>
  Claim C6, amended. For every table of report counts (natural-number cells with total
  at most \<open>2 ^ 53\<close>) each metric calculator returns a finite double, and every
  intermediate result is finite: no operation overflows, no division by zero is reached,
  and every argument that reaches \<open>Math.sqrt\<close>, \<open>Math.log\<close> or \<open>Math.log2\<close> is
  strictly positive. \<open>chi2PValue1df\<close> is applied to the statistic of the table. In the
  degenerate cases the calculators return their sentinel: 0, the pair \<open>{0, 0}\<close>, and 1
  for the p-value of a statistic that is not positive.
\<close>

theorem calculators_finite_on_counts:
  assumes "safeCounts t"
  shows "(\<exists>r. computePRR64 t = Some r
            \<and> (a t + b t = 0 \<or> c t + d t = 0 \<or> c t = 0 \<longrightarrow> r = 0))
       \<and> (\<exists>x p. computeChi2_64 t = Some x
            \<and> (a t + b t = 0 \<or> c t + d t = 0 \<or> a t + c t = 0 \<or> b t + d t = 0 \<longrightarrow> x = 0)
            \<and> chi2PValue1df64 x = Some p \<and> (x \<le> 0 \<longrightarrow> p = 1))
       \<and> (\<exists>r. computeROR64 t = Some r \<and> (b t = 0 \<or> c t = 0 \<longrightarrow> r = 0))
       \<and> (\<exists>r. computeROR_CI64 t = Some r
            \<and> (a t = 0 \<or> b t = 0 \<or> c t = 0 \<or> d t = 0 \<longrightarrow> r = \<lparr>lower = 0, upper = 0\<rparr>))
       \<and> (\<exists>r. computeIC64 t = Some r \<and> (a t = 0 \<longrightarrow> r = 0))
       \<and> (\<exists>r. computeIC025_64 t = Some r \<and> (a t = 0 \<longrightarrow> r = 0))
       \<and> (\<exists>r. computeIC975_64 t = Some r \<and> (a t = 0 \<longrightarrow> r = 0))"
proof -
  obtain x where x: "computeChi2_64 t = Some x" "\<bar>x\<bar> \<le> pow2 267"
      "a t + b t = 0 \<or> c t + d t = 0 \<or> a t + c t = 0 \<or> b t + d t = 0 \<longrightarrow> x = 0"
    using computeChi2_64_finite [OF assms] by blast
  have "x \<le> pow2 267" using x(2) by simp
  also have "\<dots> \<le> pow2 1022" by (rule pow2_mono) simp
  finally obtain p where p: "chi2PValue1df64 x = Some p" "x \<le> 0 \<longrightarrow> p = 1"
    using chi2PValue1df64_finite [of x] by blast
  have chi: "\<exists>x p. computeChi2_64 t = Some x
            \<and> (a t + b t = 0 \<or> c t + d t = 0 \<or> a t + c t = 0 \<or> b t + d t = 0 \<longrightarrow> x = 0)
            \<and> chi2PValue1df64 x = Some p \<and> (x \<le> 0 \<longrightarrow> p = 1)"
    using x(1,3) p by blast
  have ic: "\<exists>r. computeIC64 t = Some r \<and> (a t = 0 \<longrightarrow> r = 0)"
    using computeIC64_finite [OF assms] by blast
  show ?thesis
    by (intro conjI computePRR64_finite [OF assms] chi computeROR64_finite [OF assms]
          computeROR_CI64_finite [OF assms] ic computeIC025_64_finite [OF assms]
          computeIC975_64_finite [OF assms])
qed

lemma safeCounts_example: "safeCounts \<lparr>a = 150, b = 4850, c = 3000, d = 992000, n = 1000000\<rparr>"
  by (simp add: safeCounts_def)

lemma safeCounts_zero: "safeCounts \<lparr>a = 0, b = 0, c = 0, d = 0, n = 0\<rparr>"
  by (simp add: safeCounts_def)

theorem calculators_finite_on_counts_witness:
  "safeCounts \<lparr>a = 150, b = 4850, c = 3000, d = 992000, n = 1000000\<rparr>
   \<and> (\<exists>r. computePRR64 \<lparr>a = 150, b = 4850, c = 3000, d = 992000, n = 1000000\<rparr> = Some r)
   \<and> (\<exists>x p. computeChi2_64 \<lparr>a = 150, b = 4850, c = 3000, d = 992000, n = 1000000\<rparr> = Some x
         \<and> chi2PValue1df64 x = Some p)
   \<and> (\<exists>r. computeROR64 \<lparr>a = 150, b = 4850, c = 3000, d = 992000, n = 1000000\<rparr> = Some r)
   \<and> (\<exists>r. computeROR_CI64 \<lparr>a = 150, b = 4850, c = 3000, d = 992000, n = 1000000\<rparr> = Some r)
   \<and> (\<exists>r. computeIC64 \<lparr>a = 150, b = 4850, c = 3000, d = 992000, n = 1000000\<rparr> = Some r)
   \<and> (\<exists>r. computeIC025_64 \<lparr>a = 150, b = 4850, c = 3000, d = 992000, n = 1000000\<rparr> = Some r)
   \<and> (\<exists>r. computeIC975_64 \<lparr>a = 150, b = 4850, c = 3000, d = 992000, n = 1000000\<rparr> = Some r)
   \<and> safeCounts \<lparr>a = 0, b = 0, c = 0, d = 0, n = 0\<rparr>
   \<and> computePRR64 \<lparr>a = 0, b = 0, c = 0, d = 0, n = 0\<rparr> = Some 0
   \<and> computeChi2_64 \<lparr>a = 0, b = 0, c = 0, d = 0, n = 0\<rparr> = Some 0
   \<and> chi2PValue1df64 0 = Some 1
   \<and> computeROR64 \<lparr>a = 0, b = 0, c = 0, d = 0, n = 0\<rparr> = Some 0
   \<and> computeROR_CI64 \<lparr>a = 0, b = 0, c = 0, d = 0, n = 0\<rparr> = Some \<lparr>lower = 0, upper = 0\<rparr>
   \<and> computeIC64 \<lparr>a = 0, b = 0, c = 0, d = 0, n = 0\<rparr> = Some 0
   \<and> computeIC025_64 \<lparr>a = 0, b = 0, c = 0, d = 0, n = 0\<rparr> = Some 0
   \<and> computeIC975_64 \<lparr>a = 0, b = 0, c = 0, d = 0, n = 0\<rparr> = Some 0"
  using calculators_finite_on_counts [OF safeCounts_example]
    calculators_finite_on_counts [OF safeCounts_zero] safeCounts_example safeCounts_zero
  by simp blast

text \<open>
  Claim C6 as stated, for every table of non-negative counts, fails by overflow: with
  \<open>a = d = 2 ^ 520\<close> and \<open>b = c = 1\<close> the product \<open>a * d\<close> of \<open>computeROR\<close> is
  \<open>2 ^ 1040\<close>, beyond the largest double, so the product is \<open>Infinity\<close> and so is the
  quotient \<open>(a * d) / (b * c)\<close> that the function returns.
\<close>

theorem computeROR64_overflow:
  "0 \<le> b \<lparr>a = 2 ^ 520, b = 1, c = 1, d = 2 ^ 520, n = 2 ^ 521 + 2\<rparr>
   \<and> mul64 (2 ^ 520) (2 ^ 520) = None
   \<and> computeROR64 \<lparr>a = 2 ^ 520, b = 1, c = 1, d = 2 ^ 520, n = 2 ^ 521 + 2\<rparr> = None"
proof -
  have "(2::real) ^ 520 * 2 ^ 520 = 2 ^ 1040" by (simp only: flip: power_add) simp
  then have "mul64 (2 ^ 520) (2 ^ 520) = None" by (simp only: mul64_def f64_overflow)
  then show ?thesis by (simp add: computeROR64_def)
qed

section \<open>Verification: the rolling z-score of a constant window\<close>

lemma tenth_literal: "f64 (1 / 10) = Some tenth"
  by (rule f64_value [where e = "- 4" and k = 7205759403792794]) (simp_all add: f64_ev)

lemma zscore_step1: "add64 0 tenth = Some tenth"
  unfolding add64_def
  by (rule f64_value [where e = "- 4" and k = 7205759403792794]) (simp_all add: f64_ev)

lemma zscore_step2: "add64 tenth tenth = Some (3602879701896397 / 18014398509481984)"
  unfolding add64_def
  by (rule f64_value [where e = "- 3" and k = 7205759403792794]) (simp_all add: f64_ev)

lemma zscore_step3: "add64 (3602879701896397 / 18014398509481984) tenth = Some (1351079888211149 / 4503599627370496)"
  unfolding add64_def
  by (rule f64_value [where e = "- 2" and k = 5404319552844596]) (simp_all add: f64_ev)

lemma zscore_step4: "div64 (1351079888211149 / 4503599627370496) 3 = Some (7205759403792795 / 72057594037927936)"
  unfolding div64_def
  by (simp, rule f64_value [where e = "- 4" and k = 7205759403792795]) (simp_all add: f64_ev)

lemma zscore_step5: "sub64 tenth (7205759403792795 / 72057594037927936) = Some (- (1 / 2 ^ 56))"
  unfolding sub64_def
  by (rule f64_value [where e = "- 56" and k = "- (2 ^ 52)"]) (simp_all add: f64_ev)

lemma zscore_step6: "f64 ((- (1 / 2 ^ 56)) ^ 2) = Some (1 / 2 ^ 112)"
  by (rule f64_value [where e = "- 112" and k = "2 ^ 52"]) (simp_all add: f64_ev)

lemma zscore_step7: "add64 0 (1 / 2 ^ 112) = Some (1 / 2 ^ 112)"
  unfolding add64_def
  by (rule f64_value [where e = "- 112" and k = "2 ^ 52"]) (simp_all add: f64_ev)

lemma zscore_step8: "add64 (1 / 2 ^ 112) (1 / 2 ^ 112) = Some (1 / 2 ^ 111)"
  unfolding add64_def
  by (rule f64_value [where e = "- 111" and k = "2 ^ 52"]) (simp_all add: f64_ev)

lemma zscore_step9: "add64 (1 / 2 ^ 111) (1 / 2 ^ 112) = Some (3 / 2 ^ 112)"
  unfolding add64_def
  by (rule f64_value [where e = "- 111" and k = "3 * 2 ^ 51"]) (simp_all add: f64_ev)

lemma zscore_step10: "div64 (3 / 2 ^ 112) 3 = Some (1 / 2 ^ 112)"
  unfolding div64_def
  by (simp, rule f64_value [where e = "- 112" and k = "2 ^ 52"]) (simp_all add: f64_ev)

lemma sqrt_q: "sqrt (1 / 2 ^ 112) = 1 / 2 ^ 56"
proof -
  have "(1 / 2 ^ 112 :: real) = (1 / 2 ^ 56) ^ 2" by (simp add: power_divide)
  then have "sqrt (1 / 2 ^ 112) = \<bar>1 / 2 ^ 56 :: real\<bar>" by (simp only: real_sqrt_abs)
  then show ?thesis by simp
qed

lemma zscore_step11: "sqrt64 (1 / 2 ^ 112) = Some (1 / 2 ^ 56)"
  unfolding sqrt64_def sqrt_q
  by (simp, rule f64_value [where e = "- 56" and k = "2 ^ 52"]) (simp_all add: f64_ev)

lemma zscore_step12: "div64 (- (1 / 2 ^ 56)) (1 / 2 ^ 56) = Some (- 1)"
  unfolding div64_def
  by (simp, rule f64_value [where e = 0 and k = "- (2 ^ 52)"]) (simp_all add: f64_ev)

lemma lit_tenth: "lit (1 / 10) = tenth"
  using tenth_literal by (simp add: lit_def f64_def Let_def split: if_splits)

lemma rollingZScore_tenth:
  "rollingZScore [tenth, tenth, tenth] 3 = [Undefined, Number (- 1), Undefined]"
  by (simp add: rollingZScore_def js_slice_def Let_def upt_rec
        zscore_step1 zscore_step2 zscore_step3 zscore_step4 zscore_step5 [simplified] zscore_step6 [simplified] zscore_step7 [simplified] zscore_step8 [simplified]
        zscore_step9 [simplified] zscore_step10 [simplified] zscore_step11 [simplified] zscore_step12 [simplified])

lemma population_std_constant: "population_std [x, x, x] = 0"
  by (simp add: population_std_def mean_of_def)

text \<open>
  A window of fewer than 3 points gives \<open>undefined\<close>, on doubles as on the reals.
\<close>

lemma rollingZScore_few_points:
  assumes "i < length data" "0 \<le> window" "length (centered_window data window i) < 3"
  shows "rollingZScore data window ! i = Undefined"
proof -
  define halfW where "halfW = \<lfloor>window / 2\<rfloor>"
  define start where "start = max 0 (int i - halfW)"
  define stop where "stop = min (int (length data) - 1) (int i + halfW)"
  have "0 \<le> halfW" unfolding halfW_def using assms(2) by simp
  with assms(1) have bounds: "0 \<le> start" "0 \<le> stop + 1" "stop + 1 \<le> int (length data)"
    unfolding start_def stop_def by simp_all
  have sl: "js_slice data start (stop + 1) = centered_window data window i"
    using js_slice_window [OF bounds]
    by (simp add: centered_window_def halfW_def start_def stop_def)
  with assms(3) have "length (js_slice data start (stop + 1)) < 3" by simp
  then show ?thesis
    using assms(1)
    by (simp add: rollingZScore_def Let_def halfW_def start_def stop_def)
qed

text \<open>
  Claim C8 fails on the code. On the series \<open>[0.1, 0.1, 0.1]\<close> with window 3 the
  centered window of index 1 is the whole series, three equal points, whose population
  standard deviation is exactly 0; the claim gives the z-score 0. The code returns
  \<open>-1\<close>: the sum \<open>0.1 + 0.1 + 0.1\<close> is rounded to \<open>0.30000000000000004\<close>, the mean to
  \<open>0.10000000000000002\<close>, each deviation is \<open>-(2 ^ -56)\<close>, the computed standard
  deviation is \<open>2 ^ -56\<close>, which the test \<open>std === 0\<close> does not catch, and the quotient
  is \<open>-1\<close>.
\<close>

theorem rollingZScore_constant_window:
  "centered_window [lit (1 / 10), lit (1 / 10), lit (1 / 10)] 3 1
     = [lit (1 / 10), lit (1 / 10), lit (1 / 10)]
   \<and> population_std [lit (1 / 10), lit (1 / 10), lit (1 / 10)] = 0
   \<and> rollingZScore [lit (1 / 10), lit (1 / 10), lit (1 / 10)] 3
     = [Undefined, Number (- 1), Undefined]"
proof -
  have "centered_window [x, x, x] 3 1 = [x, x, x]" for x :: real
    by (simp add: centered_window_def upt_rec)
  then show ?thesis
    by (simp only: lit_tenth rollingZScore_tenth population_std_constant simp_thms)
qed

end
